theory Spec2Isabelle
  imports Main "HOL-Library.Word"
begin

unbundle bit_operations_syntax

section \<open>Data model of the Badger-backed node database\<close>

text \<open>
  The node database (package \<open>badger\<close>) keeps six key families in one key-value backend.
  The embedding keeps one component of the state per family. Versions are \<open>uint64\<close>
  and are modelled as 64-bit words, so \<open>version + 1\<close> and \<open>version - 1\<close> wrap as in Go.
  I/O failures of the backend are not modelled; every error that the source itself
  decides is a branch of the model.
\<close>

type_synonym common_Namespace = nat
type_synonym hash_Hash = nat
type_synonym version = "64 word"

text \<open>
  Modelled from the spec: the hash type and its distinguished empty hash (the hash of the
  empty byte string) are declared outside the given sources. A hash is the number its 32
  bytes spell; the zero value of the type is 0 and \<open>emptyHash\<close>, the one that \<open>IsEmpty\<close>
  recognises, is the SHA-512/256 digest of the empty string.
\<close>

definition emptyHash :: hash_Hash where
  "emptyHash = 89760640166033540766085328392674860622708497385133301819997807802867529062010"

definition IsEmpty :: "hash_Hash \<Rightarrow> bool" where
  "IsEmpty h = (h = emptyHash)"

text \<open>The root types; \<open>RootTypeInvalid\<close> is the zero value of the type.\<close>

datatype RootType = RootTypeInvalid | RootTypeState | RootTypeIO

record Root =
  Namespace :: common_Namespace
  Version :: version
  Type :: RootType
  Hash :: hash_Hash

type_synonym typedHash = "RootType \<times> hash_Hash"

definition typedHashFromParts :: "RootType \<Rightarrow> hash_Hash \<Rightarrow> typedHash" where
  "typedHashFromParts t h = (t, h)"

definition typedHashFromRoot :: "Root \<Rightarrow> typedHash" where
  "typedHashFromRoot root = typedHashFromParts (Type root) (Hash root)"

datatype error =
    ErrReadOnly
  | ErrNeedRoot
  | ErrInvalidMultipartVersion
  | ErrMultipartInProgress
  | ErrNotFinalized
  | ErrAlreadyFinalized
  | ErrVersionMismatch
  | ErrNotEarliest
  | ErrNodeNotFound
  | ErrWriteLogNotFound
  | ErrRootNotFound
  | ErrRootMustFollowOld
  | ErrBadNamespace
  | ErrPreviousVersionMismatch
  | ErrChunkMode
  | PanicUpdatedNodesIndex

text \<open>
  A trie node as far as the database looks into it: its own hash, the version it was
  created in and, for an internal node, the hashes of its leaf, left and right pointers
  (\<open>None\<close> for a nil pointer).
\<close>

datatype Node =
    InternalNode hash_Hash version "hash_Hash option" "hash_Hash option" "hash_Hash option"
  | LeafNode hash_Hash version

fun GetHash :: "Node \<Rightarrow> hash_Hash" where
  "GetHash (InternalNode h v lf l r) = h"
| "GetHash (LeafNode h v) = h"

fun GetCreatedVersion :: "Node \<Rightarrow> version" where
  "GetCreatedVersion (InternalNode h v lf l r) = v"
| "GetCreatedVersion (LeafNode h v) = v"

fun children :: "Node \<Rightarrow> hash_Hash option list" where
  "children (InternalNode h v lf l r) = [lf, l, r]"
| "children (LeafNode h v) = []"

record updatedNode =
  Removed :: bool
  NodeHash :: typedHash

type_synonym WriteLog = "(string \<times> string) list"
type_synonym Annotations = "hash_Hash list"
type_synonym HashedDBWriteLog = "WriteLog \<times> Annotations"

text \<open>
  Modelled from the spec: the backend and \<open>versionToTs\<close> are declared outside the given
  sources. The spec assumes a store "with (key, value, timestamp) semantics" and "two
  logical timestamps per key: a version timestamp used for node data" and "a separate
  metadata timestamp". A write batch opened at a timestamp stamps its sets and deletes
  with it; a transaction opened at a timestamp sees, for every key, the write with the
  largest stamp that is not above its own, the most recent one among equal stamps.
  Version timestamps are ordered as the versions are, so the version itself stands for
  its timestamp. The writes to a node key are listed most recent first, \<open>None\<close> for a
  delete.
\<close>

type_synonym 'a writes = "(version \<times> 'a option) list"

fun latestAt :: "'a writes \<Rightarrow> version \<Rightarrow> (version \<times> 'a option) option" where
  "latestAt [] ts = None"
| "latestAt ((t, x) # ws) ts =
     (case latestAt ws ts of
        None \<Rightarrow> (if t \<le> ts then Some (t, x) else None)
      | Some (t', x') \<Rightarrow> (if t \<le> ts \<and> t' \<le> t then Some (t, x) else Some (t', x')))"

definition txnGet :: "'a writes \<Rightarrow> version \<Rightarrow> 'a option" where
  "txnGet ws ts = (case latestAt ws ts of None \<Rightarrow> None | Some (t, x) \<Rightarrow> x)"

definition batchSet :: "version \<Rightarrow> 'a \<Rightarrow> 'a writes \<Rightarrow> 'a writes" where
  "batchSet ts x ws = (ts, Some x) # ws"

definition batchDelete :: "version \<Rightarrow> 'a writes \<Rightarrow> 'a writes" where
  "batchDelete ts ws = (ts, None) # ws"

text \<open>
  Only the node family is written at one timestamp and read at another. The keys of the
  write-log family carry their version and every read of that family is at the timestamp
  of the version in the key; the other families live at the metadata timestamp. For
  these a key holds what its last write left. What \<open>SetDiscardTs\<close> allows the backend to
  drop is out of reach of \<open>GetNode\<close>, which refuses roots below the earliest version.
\<close>

type_synonym writeLogKey = "version \<times> typedHash \<times> typedHash"
type_synonym rootsMetadata = "(typedHash \<times> typedHash list) list"

record metadata =
  metaVersion :: nat
  metaNamespace :: common_Namespace
  EarliestVersion :: version
  LastFinalizedVersion :: "version option"
  MultipartVersion :: version

record badgerNodeDB =
  namespace :: common_Namespace
  readOnly :: bool
  discardWriteLogs :: bool
  multipartVersion :: version
  meta :: metadata
  nodeKeys :: "typedHash \<Rightarrow> Node writes"
  writeLogKeys :: "(writeLogKey \<times> HashedDBWriteLog) list"
  rootsMetadataKeys :: "version \<rightharpoonup> rootsMetadata"
  rootUpdatedNodesKeys :: "(version \<times> typedHash) \<rightharpoonup> updatedNode list"
  multipartRestoreNodeLogKeys :: "typedHash list"

definition multipartVersionNone :: version where
  "multipartVersionNone = 0"

subsection \<open>Metadata accessors\<close>

text \<open>
  Modelled from the spec: the accessors of the global metadata record (earliest-version,
  last-finalized-version, in-progress-multipart-version) are called by the sources but
  declared elsewhere. The last finalized version is a nil-able pointer in the callers
  (\<open>version, exists := getLastFinalizedVersion()\<close>), hence an option here; the setters
  store the given value in the field they name.
\<close>

definition getEarliestVersion :: "metadata \<Rightarrow> version" where
  "getEarliestVersion m = EarliestVersion m"

definition getLastFinalizedVersion :: "metadata \<Rightarrow> version \<times> bool" where
  "getLastFinalizedVersion m =
     (case LastFinalizedVersion m of None \<Rightarrow> (0, False) | Some v \<Rightarrow> (v, True))"

definition getMultipartVersion :: "metadata \<Rightarrow> version" where
  "getMultipartVersion m = MultipartVersion m"

definition setEarliestVersion :: "metadata \<Rightarrow> version \<Rightarrow> metadata" where
  "setEarliestVersion m v = m\<lparr>EarliestVersion := v\<rparr>"

definition setLastFinalizedVersion :: "metadata \<Rightarrow> version \<Rightarrow> metadata" where
  "setLastFinalizedVersion m v = m\<lparr>LastFinalizedVersion := Some v\<rparr>"

definition setMultipartVersion :: "metadata \<Rightarrow> version \<Rightarrow> metadata" where
  "setMultipartVersion m v = m\<lparr>MultipartVersion := v\<rparr>"

text \<open>
  Modelled from the spec: \<open>loadRootsMetadata\<close> reads the per-version root metadata
  (root hash to list of derived root hashes); a version without a record has no roots.
\<close>

definition loadRootsMetadata :: "badgerNodeDB \<Rightarrow> version \<Rightarrow> rootsMetadata" where
  "loadRootsMetadata d v = (case rootsMetadataKeys d v of None \<Rightarrow> [] | Some rs \<Rightarrow> rs)"

definition sanityCheckNamespace :: "badgerNodeDB \<Rightarrow> common_Namespace \<Rightarrow> error option" where
  "sanityCheckNamespace d ns = (if ns \<noteq> namespace d then Some ErrBadNamespace else None)"

subsection \<open>HasRoot\<close>

text \<open>
  A root is registered when its typed hash is a key of the version's root map. The
  source tests \<open>rootsMeta.Roots[h] != nil\<close>; the values stored by \<open>Commit\<close> are never
  nil slices, so the test is key presence.
\<close>

definition HasRoot :: "badgerNodeDB \<Rightarrow> Root \<Rightarrow> bool" where
  "HasRoot d root =
     (if sanityCheckNamespace d (Namespace root) \<noteq> None then False
      else if IsEmpty (Hash root) then True
      else if Version root < getEarliestVersion (meta d) then False
      else map_of (loadRootsMetadata d (Version root)) (typedHashFromRoot root) \<noteq> None)"

subsection \<open>Multipart restore clean-up\<close>

text \<open>
  \<open>cleanMultipartLocked\<close> walks the multipart restore log, optionally deletes the
  logged nodes at the timestamp of the restored version, deletes the log and clears both
  copies of the multipart version.
\<close>

definition cleanMultipartLocked :: "badgerNodeDB \<Rightarrow> bool \<Rightarrow> error option \<times> badgerNodeDB" where
  "cleanMultipartLocked d removeNodes =
     (let version = (if multipartVersion d \<noteq> multipartVersionNone then multipartVersion d
                     else getMultipartVersion (meta d))
      in if version = multipartVersionNone then (None, d)
         else (None,
               d\<lparr>nodeKeys :=
                    (if removeNodes
                     then (\<lambda>k. if k \<in> set (multipartRestoreNodeLogKeys d)
                               then batchDelete version (nodeKeys d k)
                               else nodeKeys d k)
                     else nodeKeys d),
                  multipartRestoreNodeLogKeys := [],
                  meta := setMultipartVersion (meta d) 0,
                  multipartVersion := multipartVersionNone\<rparr>))"

subsection \<open>Finalize\<close>

text \<open>
  The set of finalized roots is closed under "a derived root is finalized": the source
  repeats a pass over the root map until a pass changes nothing. A pass sees the
  additions made earlier in the same pass.
\<close>

fun markDerived :: "typedHash \<Rightarrow> typedHash list \<Rightarrow> typedHash set \<times> bool \<Rightarrow> typedHash set \<times> bool" where
  "markDerived rootHash [] acc = acc"
| "markDerived rootHash (nextRoot # rest) (finalizedRoots, updated) =
     (if rootHash \<notin> finalizedRoots \<and> nextRoot \<in> finalizedRoots
      then markDerived rootHash rest (insert rootHash finalizedRoots, True)
      else markDerived rootHash rest (finalizedRoots, updated))"

fun closurePass :: "rootsMetadata \<Rightarrow> typedHash set \<times> bool \<Rightarrow> typedHash set \<times> bool" where
  "closurePass [] acc = acc"
| "closurePass ((rootHash, derivedRoots) # rest) acc =
     closurePass rest (markDerived rootHash derivedRoots acc)"

function finalizedClosure :: "rootsMetadata \<Rightarrow> typedHash set \<Rightarrow> typedHash set" where
  "finalizedClosure rootsMeta finalizedRoots =
     (case closurePass rootsMeta (finalizedRoots, False) of
        (finalizedRoots', updated) \<Rightarrow>
          if updated then finalizedClosure rootsMeta finalizedRoots' else finalizedRoots')"
  by pat_completeness auto
termination
proof (relation "measure (\<lambda>(rootsMeta, fin). card (fst ` set rootsMeta - fin))")
  show "wf (measure (\<lambda>(rootsMeta, fin). card (fst ` set rootsMeta - fin)))"
    by simp
next
  fix rootsMeta :: rootsMetadata and finalizedRoots x :: "typedHash set"
    and xa y :: bool and z :: "typedHash set \<times> bool"
  assume pass: "(x, y) = closurePass rootsMeta (finalizedRoots, False)" and upd: "y"
  have md: "fst acc \<subseteq> fst (markDerived r ds acc)
        \<and> fst (markDerived r ds acc) \<subseteq> insert r (fst acc)
        \<and> (snd (markDerived r ds acc) \<longrightarrow> snd acc \<or> fst acc \<subset> fst (markDerived r ds acc))"
    for r ds acc
  proof (induction ds arbitrary: acc)
    case Nil
    show ?case by auto
  next
    case (Cons n ds)
    obtain f u where acc: "acc = (f, u)" by (cases acc)
    show ?case
    proof (cases "r \<notin> f \<and> n \<in> f")
      case True
      with Cons [of "(insert r f, True)"] acc show ?thesis by auto
    next
      case False
      with Cons [of "(f, u)"] acc show ?thesis by auto
    qed
  qed
  have cp: "fst acc \<subseteq> fst (closurePass rs acc)
        \<and> fst (closurePass rs acc) \<subseteq> fst acc \<union> fst ` set rs
        \<and> (snd (closurePass rs acc) \<longrightarrow> snd acc \<or> fst acc \<subset> fst (closurePass rs acc))"
    for rs acc
  proof (induction rs arbitrary: acc)
    case Nil
    show ?case by simp
  next
    case (Cons p rs)
    obtain r ds where p: "p = (r, ds)" by (cases p)
    from Cons [of "markDerived r ds acc"] md [of acc r ds] p show ?case
      by auto
  qed
  from cp [of "(finalizedRoots, False)" rootsMeta] pass [symmetric] upd
  have "finalizedRoots \<subset> x" and "x \<subseteq> finalizedRoots \<union> fst ` set rootsMeta"
    by auto
  then have "fst ` set rootsMeta - x \<subset> fst ` set rootsMeta - finalizedRoots"
    by auto
  then have "card (fst ` set rootsMeta - x) < card (fst ` set rootsMeta - finalizedRoots)"
    by (intro psubset_card_mono) auto
  then show "((rootsMeta, x), (rootsMeta, finalizedRoots))
      \<in> measure (\<lambda>(rootsMeta, fin). card (fst ` set rootsMeta - fin))"
    by simp
qed

text \<open>
  The second loop of \<open>Finalize\<close> visits every root of the version. Its working state:
  the two node sets, the root map being pruned, the write-log keys queued for deletion in
  the version batch, and the updated-nodes family as the transaction sees it.
\<close>

record finalizeState =
  maybeLoneNodes :: "typedHash set"
  notLoneNodes :: "typedHash set"
  rootsMetaRoots :: rootsMetadata
  rootsChanged :: bool
  versionBatch :: "writeLogKey list"
  txUpdatedNodes :: "(version \<times> typedHash) \<rightharpoonup> updatedNode list"

text \<open>
  The keys of the write logs that result in \<open>rootHash\<close> at version \<open>v\<close>: the iterator
  over the prefix (version, new root) of the write-log family.
\<close>

definition writeLogsInto :: "badgerNodeDB \<Rightarrow> version \<Rightarrow> typedHash \<Rightarrow> writeLogKey list" where
  "writeLogsInto d v rootHash =
     map fst (filter (\<lambda>(k, l). fst k = v \<and> fst (snd k) = rootHash) (writeLogKeys d))"

definition finalizeRoot ::
  "badgerNodeDB \<Rightarrow> version \<Rightarrow> typedHash set \<Rightarrow> typedHash \<Rightarrow> finalizeState
     \<Rightarrow> error + finalizeState" where
  "finalizeRoot d v finalizedRoots rootHash st =
     (case txUpdatedNodes st (v, rootHash) of
        None \<Rightarrow> Inl PanicUpdatedNodesIndex
      | Some updatedNodes \<Rightarrow>
          let st' =
            (if rootHash \<in> finalizedRoots
             then st\<lparr>maybeLoneNodes :=
                        maybeLoneNodes st \<union> NodeHash ` set (filter Removed updatedNodes),
                      notLoneNodes :=
                        notLoneNodes st \<union> NodeHash ` set (filter (\<lambda>n. \<not> Removed n) updatedNodes)\<rparr>
             else st\<lparr>maybeLoneNodes :=
                        maybeLoneNodes st \<union> NodeHash ` set (filter (\<lambda>n. \<not> Removed n) updatedNodes),
                      rootsMetaRoots := filter (\<lambda>p. fst p \<noteq> rootHash) (rootsMetaRoots st),
                      rootsChanged := True,
                      versionBatch :=
                        versionBatch st @
                          (if discardWriteLogs d then [] else writeLogsInto d v rootHash)\<rparr>)
          in Inr (st'\<lparr>txUpdatedNodes := (txUpdatedNodes st')((v, rootHash) := None)\<rparr>))"

fun finalizeRoots ::
  "badgerNodeDB \<Rightarrow> version \<Rightarrow> typedHash set \<Rightarrow> typedHash list \<Rightarrow> finalizeState
     \<Rightarrow> error + finalizeState" where
  "finalizeRoots d v finalizedRoots [] st = Inr st"
| "finalizeRoots d v finalizedRoots (rootHash # rest) st =
     (case finalizeRoot d v finalizedRoots rootHash st of
        Inl e \<Rightarrow> Inl e
      | Inr st' \<Rightarrow> finalizeRoots d v finalizedRoots rest st')"

text \<open>
  \<open>Finalize\<close> returns the error (\<open>None\<close> for nil) and the database afterwards. The
  version batch, which deletes at the timestamp of the finalized version, and the
  transaction are applied only at the end, so every error return
  (and the panic on a missing updated-nodes record) leaves the database as it was.
  \<open>finalizeVersion\<close> is the part of the function after its checks, from loading the
  version's root metadata on; \<open>finalizedRoots\<close> is the set built from the given roots.
\<close>

definition finalizeVersion ::
  "badgerNodeDB \<Rightarrow> version \<Rightarrow> typedHash set \<Rightarrow> error option \<times> badgerNodeDB" where
  "finalizeVersion d v finalizedRoots =
     (let rootsMeta = loadRootsMetadata d v;
          finalizedRoots' = finalizedClosure rootsMeta finalizedRoots
      in
      case finalizeRoots d v finalizedRoots' (map fst rootsMeta)
             \<lparr>maybeLoneNodes = {}, notLoneNodes = {}, rootsMetaRoots = rootsMeta,
              rootsChanged = False, versionBatch = [],
              txUpdatedNodes = rootUpdatedNodesKeys d\<rparr> of
        Inl e \<Rightarrow> (Some e, d)
      | Inr st \<Rightarrow>
          let d' = d\<lparr>nodeKeys :=
                       (\<lambda>h. if h \<in> maybeLoneNodes st \<and> h \<notin> notLoneNodes st
                            then batchDelete v (nodeKeys d h)
                            else nodeKeys d h),
                     writeLogKeys :=
                       filter (\<lambda>(k, l). k \<notin> set (versionBatch st)) (writeLogKeys d),
                     rootUpdatedNodesKeys := txUpdatedNodes st,
                     rootsMetadataKeys :=
                       (if rootsChanged st
                        then (rootsMetadataKeys d)(v \<mapsto> rootsMetaRoots st)
                        else rootsMetadataKeys d),
                     meta := setLastFinalizedVersion (meta d) v\<rparr>
          in if multipartVersion d' \<noteq> multipartVersionNone
             then cleanMultipartLocked d' False
             else (None, d'))"

definition Finalize :: "badgerNodeDB \<Rightarrow> Root list \<Rightarrow> error option \<times> badgerNodeDB" where
  "Finalize d roots =
     (if readOnly d then (Some ErrReadOnly, d)
      else case roots of
        [] \<Rightarrow> (Some ErrNeedRoot, d)
      | root0 # _ \<Rightarrow>
          let v = Version root0;
              (lastFinalizedVersion, exists) = getLastFinalizedVersion (meta d)
          in
          if multipartVersion d \<noteq> multipartVersionNone \<and> multipartVersion d \<noteq> v
          then (Some ErrInvalidMultipartVersion, d)
          else if multipartVersion d = multipartVersionNone \<and> v > 0 \<and> exists
                  \<and> lastFinalizedVersion < v - 1
          then (Some ErrNotFinalized, d)
          else if exists \<and> v \<le> lastFinalizedVersion
          then (Some ErrAlreadyFinalized, d)
          else if list_ex (\<lambda>root. Version root \<noteq> v) roots
          then (Some ErrVersionMismatch, d)
          else finalizeVersion d v (set (map typedHashFromRoot roots)))"

subsection \<open>GetNode and tree traversal\<close>

text \<open>
  \<open>GetNode\<close> is called here with a clean pointer to hash \<open>h\<close> (the nil and dirty pointer
  panic of the source is outside the callers modelled). It reads at the timestamp of the
  root's version.
\<close>

definition GetNode :: "badgerNodeDB \<Rightarrow> Root \<Rightarrow> hash_Hash \<Rightarrow> error + Node" where
  "GetNode d root h =
     (case sanityCheckNamespace d (Namespace root) of
        Some e \<Rightarrow> Inl e
      | None \<Rightarrow>
          if Version root < getEarliestVersion (meta d) then Inl ErrNodeNotFound
          else case txnGet (nodeKeys d (typedHashFromParts (Type root) h)) (Version root) of
                 None \<Rightarrow> Inl ErrNodeNotFound
               | Some n \<Rightarrow> Inr n)"

text \<open>
  Modelled from the spec: \<open>Visit\<close>, the traversal that \<open>Prune\<close> uses to visit a lone
  root, is declared outside the given sources. It fetches the node behind a pointer with
  \<open>GetNode\<close>, hands it to the visitor and descends into the leaf, left and right pointers
  of an internal node; a failed fetch ends the traversal with that error. The recursion
  depth is bounded by \<open>fuel\<close>: \<open>None\<close> stands for a traversal that does not return within
  that depth.
\<close>

fun doVisit ::
  "nat \<Rightarrow> badgerNodeDB \<Rightarrow> Root \<Rightarrow> (Node \<Rightarrow> 's \<Rightarrow> 's) \<Rightarrow> hash_Hash option list \<Rightarrow> 's
     \<Rightarrow> (error + 's) option" where
  "doVisit fuel d root visitor [] s = Some (Inr s)"
| "doVisit fuel d root visitor (None # ptrs) s = doVisit fuel d root visitor ptrs s"
| "doVisit 0 d root visitor (Some h # ptrs) s = None"
| "doVisit (Suc fuel) d root visitor (Some h # ptrs) s =
     (case GetNode d root h of
        Inl e \<Rightarrow> Some (Inl e)
      | Inr n \<Rightarrow>
          (case doVisit fuel d root visitor (children n) (visitor n s) of
             None \<Rightarrow> None
           | Some (Inl e) \<Rightarrow> Some (Inl e)
           | Some (Inr s') \<Rightarrow> doVisit (Suc fuel) d root visitor ptrs s'))"

definition Visit ::
  "nat \<Rightarrow> badgerNodeDB \<Rightarrow> Root \<Rightarrow> (Node \<Rightarrow> 's \<Rightarrow> 's) \<Rightarrow> 's \<Rightarrow> (error + 's) option" where
  "Visit fuel d root visitor s = doVisit fuel d root visitor [Some (Hash root)] s"

subsection \<open>Prune\<close>

text \<open>
  \<open>maybeLoneRoots\<close> is the flag map of the source: a root without derived roots is
  flagged lone unless it already carries a flag, a root with derived roots is flagged
  not lone.
\<close>

fun setKey :: "'k \<Rightarrow> 'v \<Rightarrow> ('k \<times> 'v) list \<Rightarrow> ('k \<times> 'v) list" where
  "setKey k b [] = [(k, b)]"
| "setKey k b ((k', b') # m) = (if k = k' then (k, b) # m else (k', b') # setKey k b m)"

fun maybeLoneRoots :: "rootsMetadata \<Rightarrow> (typedHash \<times> bool) list \<Rightarrow> (typedHash \<times> bool) list" where
  "maybeLoneRoots [] m = m"
| "maybeLoneRoots ((rootHash, derivedRoots) # rest) m =
     maybeLoneRoots rest
       (if derivedRoots = []
        then (if map_of m rootHash = None then setKey rootHash True m else m)
        else setKey rootHash False m)"

text \<open>The visitor of \<open>Prune\<close>: queue the deletion of every node created in the pruned version.\<close>

definition pruneVisitor :: "version \<Rightarrow> Root \<Rightarrow> Node \<Rightarrow> typedHash list \<Rightarrow> typedHash list" where
  "pruneVisitor v root n batch =
     (if GetCreatedVersion n = v then batch @ [typedHashFromParts (Type root) (GetHash n)]
      else batch)"

fun pruneRoots ::
  "nat \<Rightarrow> badgerNodeDB \<Rightarrow> version \<Rightarrow> (typedHash \<times> bool) list \<Rightarrow> typedHash list
     \<Rightarrow> (error + typedHash list) option" where
  "pruneRoots fuel d v [] batch = Some (Inr batch)"
| "pruneRoots fuel d v ((rootHash, isLone) # rest) batch =
     (if \<not> isLone then pruneRoots fuel d v rest batch
      else
        let root = \<lparr>Namespace = namespace d, Version = v,
                    Type = fst rootHash, Hash = snd rootHash\<rparr>
        in case Visit fuel d root (pruneVisitor v root) batch of
             None \<Rightarrow> None
           | Some (Inl e) \<Rightarrow> Some (Inl e)
           | Some (Inr batch') \<Rightarrow> pruneRoots fuel d v rest batch')"

definition Prune :: "nat \<Rightarrow> badgerNodeDB \<Rightarrow> version \<Rightarrow> (error option \<times> badgerNodeDB) option" where
  "Prune fuel d v =
     (if readOnly d then Some (Some ErrReadOnly, d)
      else if multipartVersion d \<noteq> multipartVersionNone then Some (Some ErrMultipartInProgress, d)
      else
        let (lastFinalizedVersion, exists) = getLastFinalizedVersion (meta d) in
        if \<not> exists \<or> lastFinalizedVersion < v then Some (Some ErrNotFinalized, d)
        else if v \<noteq> getEarliestVersion (meta d) then Some (Some ErrNotEarliest, d)
        else
          case pruneRoots fuel d v (maybeLoneRoots (loadRootsMetadata d v) []) [] of
            None \<Rightarrow> None
          | Some (Inl e) \<Rightarrow> Some (Some e, d)
          | Some (Inr batch) \<Rightarrow>
              Some (None,
                d\<lparr>nodeKeys := (\<lambda>h. if h \<in> set batch then batchDelete v (nodeKeys d h)
                                   else nodeKeys d h),
                  writeLogKeys :=
                    (if discardWriteLogs d then writeLogKeys d
                     else filter (\<lambda>(k, l). fst k \<noteq> v) (writeLogKeys d)),
                  rootsMetadataKeys := (rootsMetadataKeys d)(v := None),
                  meta := setEarliestVersion (meta d) (v + 1)\<rparr>))"

text \<open>
  The hashes that a traversal from hash \<open>h0\<close> reaches among the nodes of root type \<open>rt\<close>
  as a read at version \<open>v\<close> sees them: \<open>h0\<close> itself and whatever is reachable from a
  pointer of the node read for \<open>h0\<close>.
\<close>

inductive reachable ::
  "badgerNodeDB \<Rightarrow> version \<Rightarrow> RootType \<Rightarrow> hash_Hash \<Rightarrow> hash_Hash \<Rightarrow> bool"
  for d :: badgerNodeDB and v :: version and rt :: RootType where
  here: "reachable d v rt h h"
| below: "txnGet (nodeKeys d (rt, h0)) v = Some n \<Longrightarrow> Some c \<in> set (children n)
          \<Longrightarrow> reachable d v rt c h \<Longrightarrow> reachable d v rt h0 h"

text \<open>
  A lone root of a version is a root of its metadata record none of whose entries lists a
  derived root.
\<close>

definition loneRoot :: "badgerNodeDB \<Rightarrow> version \<Rightarrow> typedHash \<Rightarrow> bool" where
  "loneRoot d v rootHash =
     (rootHash \<in> fst ` set (loadRootsMetadata d v)
      \<and> (\<forall>derivedRoots. (rootHash, derivedRoots) \<in> set (loadRootsMetadata d v)
             \<longrightarrow> derivedRoots = []))"

text \<open>
  The node keys that the specification has \<open>Prune\<close> of version \<open>v\<close> delete: the key, under
  its own hash, of every node created in \<open>v\<close> that is read at a hash reachable from a lone
  root of \<open>v\<close>.
\<close>

definition createdUnderLoneRoot :: "badgerNodeDB \<Rightarrow> version \<Rightarrow> typedHash \<Rightarrow> bool" where
  "createdUnderLoneRoot d v k =
     (\<exists>r h n. loneRoot d v r \<and> reachable d v (fst r) (snd r) h
         \<and> txnGet (nodeKeys d (fst r, h)) v = Some n \<and> GetCreatedVersion n = v
         \<and> k = (fst r, GetHash n))"

text \<open>
  The node keys that the visitor of \<open>Prune\<close> queues on a traversal of \<open>root\<close> from the
  pointers \<open>ptrs\<close>.
\<close>

definition queuedFrom ::
  "badgerNodeDB \<Rightarrow> Root \<Rightarrow> version \<Rightarrow> hash_Hash option list \<Rightarrow> typedHash \<Rightarrow> bool" where
  "queuedFrom d root v ptrs k =
     (\<exists>p h n. Some p \<in> set ptrs \<and> reachable d (Version root) (Type root) p h
         \<and> txnGet (nodeKeys d (Type root, h)) (Version root) = Some n
         \<and> GetCreatedVersion n = v \<and> k = (Type root, GetHash n))"

subsection \<open>Multipart restore\<close>

definition StartMultipartInsert :: "badgerNodeDB \<Rightarrow> version \<Rightarrow> error option \<times> badgerNodeDB" where
  "StartMultipartInsert d v =
     (if v = multipartVersionNone then (Some ErrInvalidMultipartVersion, d)
      else if multipartVersion d \<noteq> multipartVersionNone
      then (if multipartVersion d \<noteq> v then (Some ErrMultipartInProgress, d) else (None, d))
      else (None, d\<lparr>meta := setMultipartVersion (meta d) v, multipartVersion := v\<rparr>))"

definition AbortMultipartInsert :: "badgerNodeDB \<Rightarrow> error option \<times> badgerNodeDB" where
  "AbortMultipartInsert d = cleanMultipartLocked d True"

subsection \<open>GetWriteLog\<close>

text \<open>
  Modelled from the spec: \<open>Follows\<close> is declared outside the given sources. The spec
  requires the same namespace and a version of the new root that is not below the old
  root's; what it says for equal versions ("same or derived") is not a condition on the
  two roots themselves.
\<close>

definition Follows :: "Root \<Rightarrow> Root \<Rightarrow> bool" where
  "Follows r other = (Namespace r = Namespace other \<and> Version other \<le> Version r)"

definition maxAllowedHops :: nat where
  "maxAllowedHops = 2"

record wlItem =
  depth :: nat
  endRootHash :: typedHash
  logKeys :: "writeLogKey list"
  logRoots :: "typedHash list"

text \<open>
  One pass of the inner iterator: \<open>Inl\<close> is a found path, \<open>Inr\<close> the queue with the
  items appended for the next hop.
\<close>

fun scanWriteLogs ::
  "typedHash \<Rightarrow> wlItem \<Rightarrow> writeLogKey list \<Rightarrow> wlItem list \<Rightarrow> wlItem + wlItem list" where
  "scanWriteLogs startRootHash curItem [] queue = Inr queue"
| "scanWriteLogs startRootHash curItem (key # keys) queue =
     (let nextItem = \<lparr>depth = depth curItem + 1,
                       endRootHash = snd (snd key),
                       logKeys = logKeys curItem @ [key],
                       logRoots = logRoots curItem @ [endRootHash curItem]\<rparr>
      in if endRootHash nextItem = startRootHash then Inl nextItem
         else scanWriteLogs startRootHash curItem keys
                (if depth nextItem < maxAllowedHops then queue @ [nextItem] else queue))"

function searchWriteLogs ::
  "badgerNodeDB \<Rightarrow> version \<Rightarrow> typedHash \<Rightarrow> wlItem list \<Rightarrow> wlItem option" where
  "searchWriteLogs d v startRootHash [] = None"
| "searchWriteLogs d v startRootHash (curItem # queue) =
     (case scanWriteLogs startRootHash curItem (writeLogsInto d v (endRootHash curItem)) queue of
        Inl found \<Rightarrow> Some found
      | Inr queue' \<Rightarrow> searchWriteLogs d v startRootHash queue')"
  by pat_completeness auto
termination
proof (relation "measure (\<lambda>(d, v, s, queue).
         sum_list (map (\<lambda>it. if depth it + 1 < maxAllowedHops
                             then Suc (length (writeLogKeys d)) else 1) queue))")
  show "wf (measure (\<lambda>(d, v, s, queue).
         sum_list (map (\<lambda>it. if depth it + 1 < maxAllowedHops
                             then Suc (length (writeLogKeys d)) else 1) queue)))"
    by simp
next
  fix d :: badgerNodeDB and v :: version and startRootHash :: typedHash
    and curItem :: wlItem and queue queue' :: "wlItem list"
  let ?w = "\<lambda>it :: wlItem. if depth it + 1 < maxAllowedHops
                             then Suc (length (writeLogKeys d)) else (1::nat)"
  assume scan: "scanWriteLogs startRootHash curItem
                  (writeLogsInto d v (endRootHash curItem)) queue = Inr queue'"
  have grow: "scanWriteLogs startRootHash curItem keys q = Inr q' \<Longrightarrow>
        sum_list (map ?w q') \<le> sum_list (map ?w q)
          + (if depth curItem + 1 < maxAllowedHops then length keys else 0)"
    for keys q q'
  proof (induction keys arbitrary: q)
    case Nil
    then show ?case by simp
  next
    case (Cons key keys)
    then show ?case
      by (fastforce simp: Let_def maxAllowedHops_def split: if_splits)
  qed
  have "length (writeLogsInto d v (endRootHash curItem)) \<le> length (writeLogKeys d)"
    by (simp add: writeLogsInto_def)
  with grow [OF scan]
  have "sum_list (map ?w queue') < sum_list (map ?w (curItem # queue))"
    by (auto split: if_splits)
  then show "((d, v, startRootHash, queue'), (d, v, startRootHash, curItem # queue))
      \<in> measure (\<lambda>(d, v, s, queue).
         sum_list (map (\<lambda>it. if depth it + 1 < maxAllowedHops
                             then Suc (length (writeLogKeys d)) else 1) queue))"
    by simp
qed

text \<open>
  \<open>GetWriteLog\<close> returns the found path (the log keys and their roots, from which the
  source revives the write-log iterator). Cancellation of the context is not modelled.
\<close>

definition GetWriteLog :: "badgerNodeDB \<Rightarrow> Root \<Rightarrow> Root \<Rightarrow> error + wlItem" where
  "GetWriteLog d startRoot endRoot =
     (if discardWriteLogs d then Inl ErrWriteLogNotFound
      else if \<not> Follows endRoot startRoot then Inl ErrRootMustFollowOld
      else case sanityCheckNamespace d (Namespace startRoot) of
        Some e \<Rightarrow> Inl e
      | None \<Rightarrow>
          if Version endRoot < getEarliestVersion (meta d) then Inl ErrWriteLogNotFound
          else case searchWriteLogs d (Version endRoot) (typedHashFromRoot startRoot)
                      [\<lparr>depth = 0, endRootHash = typedHashFromRoot endRoot,
                        logKeys = [], logRoots = []\<rparr>] of
                 None \<Rightarrow> Inl ErrWriteLogNotFound
               | Some found \<Rightarrow> Inr found)"

subsection \<open>Batches\<close>

text \<open>
  A batch stages writes: \<open>bat\<close> holds the node and write-log sets of the version batch,
  \<open>multipartNodes\<close> the multipart log entries (absent outside a restore), \<open>readTxn\<close> the
  node family as the read transaction of a chunk batch sees it. \<open>batVersion\<close> is the
  version at whose timestamp \<open>NewBatch\<close> opens \<open>bat\<close> and \<open>readTxn\<close>.
\<close>

datatype batchOp = SetNode typedHash Node | SetWriteLog writeLogKey HashedDBWriteLog

record badgerBatch =
  bat :: "batchOp list"
  batVersion :: version
  multipartNodes :: "typedHash list option"
  readTxn :: "(typedHash \<Rightarrow> Node writes) option"
  oldRoot :: Root
  chunk :: bool
  writeLog :: "WriteLog option"
  annotations :: "Annotations option"
  updatedNodes :: "updatedNode list"

definition NewBatch :: "badgerNodeDB \<Rightarrow> Root \<Rightarrow> version \<Rightarrow> bool \<Rightarrow> error + badgerBatch" where
  "NewBatch d oldRoot' v chunk' =
     (if readOnly d then Inl ErrReadOnly
      else if multipartVersion d \<noteq> multipartVersionNone \<and> multipartVersion d \<noteq> v
      then Inl ErrInvalidMultipartVersion
      else if chunk' \<noteq> (multipartVersion d \<noteq> multipartVersionNone)
      then Inl ErrMultipartInProgress
      else Inr \<lparr>bat = [], batVersion = v,
                multipartNodes =
                  (if multipartVersion d \<noteq> multipartVersionNone then Some [] else None),
                readTxn =
                  (if multipartVersion d \<noteq> multipartVersionNone then Some (nodeKeys d) else None),
                oldRoot = oldRoot', chunk = chunk',
                writeLog = None, annotations = None, updatedNodes = []\<rparr>)"

definition PutWriteLog ::
  "badgerNodeDB \<Rightarrow> badgerBatch \<Rightarrow> WriteLog \<Rightarrow> Annotations \<Rightarrow> error option \<times> badgerBatch" where
  "PutWriteLog d ba wl ann =
     (if chunk ba then (Some ErrChunkMode, ba)
      else if discardWriteLogs d then (None, ba)
      else (None, ba\<lparr>writeLog := Some wl, annotations := Some ann\<rparr>))"

definition RemoveNodes :: "badgerBatch \<Rightarrow> Node list \<Rightarrow> error option \<times> badgerBatch" where
  "RemoveNodes ba nodes =
     (if chunk ba then (Some ErrChunkMode, ba)
      else (None,
            ba\<lparr>updatedNodes := updatedNodes ba @
                 map (\<lambda>n. \<lparr>Removed = True,
                           NodeHash = typedHashFromParts (Type (oldRoot ba)) (GetHash n)\<rparr>) nodes\<rparr>))"

definition PutNode :: "badgerBatch \<Rightarrow> Node \<Rightarrow> badgerBatch" where
  "PutNode ba n =
     (let h = typedHashFromParts (Type (oldRoot ba)) (GetHash n)
      in ba\<lparr>updatedNodes := updatedNodes ba @ [\<lparr>Removed = False, NodeHash = h\<rparr>],
             multipartNodes :=
               (case (multipartNodes ba, readTxn ba) of
                  (Some nodeLog, Some txn) \<Rightarrow>
                    if txnGet (txn h) (batVersion ba) = None then Some (nodeLog @ [h])
                    else Some nodeLog
                | (m, _) \<Rightarrow> m),
             bat := bat ba @ [SetNode h n]\<rparr>)"

definition Reset :: "badgerBatch \<Rightarrow> badgerBatch" where
  "Reset ba =
     ba\<lparr>bat := [],
        multipartNodes := (case multipartNodes ba of None \<Rightarrow> None | Some nodeLog \<Rightarrow> Some []),
        writeLog := None, annotations := None, updatedNodes := []\<rparr>"

text \<open>
  Modelled from the spec: the commit of the embedded base batch, declared outside the
  given sources, ends every successful commit; the spec gives it no failure.
\<close>

definition BaseBatch_Commit :: "Root \<Rightarrow> error option" where
  "BaseBatch_Commit root = None"

text \<open>
  The flush of \<open>bat\<close> stamps every write with the batch's timestamp. A write log stamped
  above the version in its key is out of sight of every read of the family, which is at
  the timestamp of the key's version.
\<close>

fun flushBat :: "version \<Rightarrow> batchOp list \<Rightarrow> badgerNodeDB \<Rightarrow> badgerNodeDB" where
  "flushBat ts [] d = d"
| "flushBat ts (SetNode h n # ops) d =
     flushBat ts ops (d\<lparr>nodeKeys := (nodeKeys d)(h := batchSet ts n (nodeKeys d h))\<rparr>)"
| "flushBat ts (SetWriteLog k l # ops) d =
     flushBat ts ops (if ts \<le> fst k then d\<lparr>writeLogKeys := setKey k l (writeLogKeys d)\<rparr> else d)"

definition flushMultipartNodes :: "typedHash list option \<Rightarrow> badgerNodeDB \<Rightarrow> badgerNodeDB" where
  "flushMultipartNodes m d =
     (case m of
        None \<Rightarrow> d
      | Some nodeLog \<Rightarrow>
          d\<lparr>multipartRestoreNodeLogKeys :=
               multipartRestoreNodeLogKeys d @
                 filter (\<lambda>h. h \<notin> set (multipartRestoreNodeLogKeys d)) (remdups nodeLog)\<rparr>)"

text \<open>
  \<open>Commit\<close> returns the error, the database and the batch afterwards. \<open>rm\<close> is the
  roots-metadata family as the metadata transaction sees it (it reads its own writes);
  the transaction is committed last, after both batches are flushed.
\<close>

definition Commit ::
  "badgerNodeDB \<Rightarrow> badgerBatch \<Rightarrow> Root \<Rightarrow> error option \<times> badgerNodeDB \<times> badgerBatch" where
  "Commit d ba root =
     (if multipartVersion d \<noteq> multipartVersionNone \<and> multipartVersion d \<noteq> Version root
      then (Some ErrInvalidMultipartVersion, d, ba)
      else case sanityCheckNamespace d (Namespace root) of
        Some e \<Rightarrow> (Some e, d, ba)
      | None \<Rightarrow>
          if \<not> Follows root (oldRoot ba) then (Some ErrRootMustFollowOld, d, ba)
          else
            let (lastFinalizedVersion, exists) = getLastFinalizedVersion (meta d) in
            if exists \<and> Version root \<le> lastFinalizedVersion then (Some ErrAlreadyFinalized, d, ba)
            else
              let rootsMeta = loadRootsMetadata d (Version root);
                  rootHash = typedHashFromRoot root
              in
              if map_of rootsMeta rootHash \<noteq> None \<and> \<not> chunk ba
              then (BaseBatch_Commit root, d, Reset ba)
              else
                let rm = (if map_of rootsMeta rootHash \<noteq> None then rootsMetadataKeys d
                          else (rootsMetadataKeys d)(Version root \<mapsto> rootsMeta @ [(rootHash, [])]));
                    finish = (\<lambda>rm' un bat'.
                      (BaseBatch_Commit root,
                       (flushBat (batVersion ba) bat' (flushMultipartNodes (multipartNodes ba) d))
                         \<lparr>rootsMetadataKeys := rm', rootUpdatedNodesKeys := un\<rparr>,
                       ba\<lparr>writeLog := None, annotations := None, updatedNodes := []\<rparr>))
                in
                if chunk ba
                then finish rm ((rootUpdatedNodesKeys d)((Version root, rootHash) \<mapsto> [])) (bat ba)
                else
                  let oldRootHash = typedHashFromRoot (oldRoot ba);
                      un = (rootUpdatedNodesKeys d)((Version root, rootHash) \<mapsto> updatedNodes ba);
                      bat' = (case (writeLog ba, annotations ba) of
                                (Some wl, Some ann) \<Rightarrow>
                                  bat ba @ [SetWriteLog (Version root, rootHash, oldRootHash) (wl, ann)]
                              | _ \<Rightarrow> bat ba)
                  in
                  if IsEmpty (Hash (oldRoot ba)) then finish rm un bat'
                  else if Version (oldRoot ba) < getEarliestVersion (meta d)
                          \<and> Version (oldRoot ba) \<noteq> Version root
                  then (Some ErrPreviousVersionMismatch, d, ba)
                  else
                    let oldRootsMeta = (case rm (Version (oldRoot ba)) of
                                          None \<Rightarrow> [] | Some rs \<Rightarrow> rs)
                    in case map_of oldRootsMeta oldRootHash of
                         None \<Rightarrow> (Some ErrRootNotFound, d, ba)
                       | Some derivedRoots \<Rightarrow>
                           finish
                             (rm(Version (oldRoot ba) \<mapsto>
                                   setKey oldRootHash (derivedRoots @ [rootHash]) oldRootsMeta))
                             un bat')"

section \<open>The storage worker's sync loop\<close>

text \<open>
  The committee node of the storage worker (package \<open>committee\<close>) runs one loop per
  runtime. The embedding keeps what the loop reads and writes: its local variables, the
  in-memory and the persisted sync cursor, the finalize goroutines that have been started
  and whose summary has not yet arrived on \<open>finalizeCh\<close>, and the fetches handed to the
  fetch pool. What arrives on the channels of the \<open>select\<close> is the input of the model, one
  event per receive. The calls into local storage (\<open>Apply\<close>, and \<open>Finalize\<close> inside a
  finalize goroutine) do not feed back into the loop and are left out; a panic and a loop
  that does not return end the run.
\<close>

type_synonym outstandingMask = "64 word"

definition maskNone :: outstandingMask where
  "maskNone = 0"

definition maskIO :: outstandingMask where
  "maskIO = 1"

definition maskState :: outstandingMask where
  "maskState = 2"

definition maskAll :: outstandingMask where
  "maskAll = maskIO OR maskState"

definition defaultUndefinedRound :: "64 word" where
  "defaultUndefinedRound = NOT 0"

record block =
  hdrNamespace :: common_Namespace
  hdrRound :: "64 word"
  hdrIORoot :: hash_Hash
  hdrStateRoot :: hash_Hash

record blockSummary =
  sumNamespace :: common_Namespace
  Round :: "64 word"
  IORoot :: Root
  StateRoot :: Root

definition summaryFromBlock :: "block \<Rightarrow> blockSummary" where
  "summaryFromBlock blk =
     \<lparr>sumNamespace = hdrNamespace blk,
      Round = hdrRound blk,
      IORoot = \<lparr>Namespace = hdrNamespace blk, Version = hdrRound blk,
                Type = RootTypeIO, Hash = hdrIORoot blk\<rparr>,
      StateRoot = \<lparr>Namespace = hdrNamespace blk, Version = hdrRound blk,
                   Type = RootTypeState, Hash = hdrStateRoot blk\<rparr>\<rparr>"

record watcherState =
  LastBlock :: blockSummary

record fetchedDiff =
  fetchMask :: outstandingMask
  fetched :: bool
  err :: bool
  diffRound :: "64 word"
  prevRoot :: Root
  thisRoot :: Root
  diffWriteLog :: WriteLog

record inFlight =
  outstanding :: outstandingMask
  awaitingRetry :: outstandingMask

text \<open>
  The two round queues are binary heaps ordered by round. The loop reads only their
  first element, a minimum, and pops it; the heap is modelled by a list in ascending
  order of rounds, into which \<open>heapPush\<close> inserts.
\<close>

fun heapPush :: "('a \<Rightarrow> 64 word) \<Rightarrow> 'a \<Rightarrow> 'a list \<Rightarrow> 'a list" where
  "heapPush GetRound x [] = [x]"
| "heapPush GetRound x (y # q) =
     (if GetRound x < GetRound y then x # y # q else y # heapPush GetRound x q)"

record workerState =
  undefinedRound :: "64 word"
  cachedLastRound :: "64 word"
  lastFullyAppliedRound :: "64 word"
  outOfOrderDiffs :: "fetchedDiff list"
  outOfOrderApplieds :: "blockSummary list"
  syncingRounds :: "64 word \<rightharpoonup> inFlight"
  hashCache :: "64 word \<rightharpoonup> blockSummary"
  finalizing :: "blockSummary list"
  fetchPool :: "(64 word \<times> Root \<times> Root \<times> outstandingMask) list"
  syncedState :: watcherState
  stateStore :: "watcherState option"
  stored :: "watcherState list"

text \<open>
  \<open>flushSyncedState\<close> overwrites the cursor in memory and writes it to the state store.
  A failed write (\<open>putOk\<close> false) is only logged: the store keeps what it held and the
  round of the new cursor is returned all the same. \<open>stored\<close> lists, oldest first, every
  value the state store has held: an observation of the persisted cursor reads one of
  them, and a later observation reads the same or a later one.
\<close>

definition flushSyncedState ::
  "workerState \<Rightarrow> blockSummary \<Rightarrow> bool \<Rightarrow> workerState \<times> 64 word" where
  "flushSyncedState n summary putOk =
     (let w = \<lparr>LastBlock = summary\<rparr>;
          n' = n\<lparr>syncedState := w\<rparr>
      in ((if putOk then n'\<lparr>stateStore := Some w, stored := stored n @ [w]\<rparr> else n'),
          Round (LastBlock w)))"

subsection \<open>One iteration of the loop\<close>

text \<open>
  The first branch of the loop body: pop the diff of the round after the last fully
  applied one, clear its bits and, when nothing is outstanding for the round, push the
  round's summary onto the queue of applied rounds. \<open>None\<close> is the nil dereference of a
  round without an entry in \<open>syncingRounds\<close> or without a summary in \<open>hashCache\<close>; the
  source dereferences the nil summary when the queue of applied rounds next compares
  rounds, which is before the loop receives another event.
\<close>

definition applyDiff :: "workerState \<Rightarrow> workerState option" where
  "applyDiff s =
     (let lastDiff = hd (outOfOrderDiffs s);
          s1 = s\<lparr>outOfOrderDiffs := tl (outOfOrderDiffs s)\<rparr>
      in case syncingRounds s1 (diffRound lastDiff) of
           None \<Rightarrow> None
         | Some syncing \<Rightarrow>
             let syncing' = syncing\<lparr>outstanding := outstanding syncing AND NOT (fetchMask lastDiff)\<rparr>;
                 s2 = s1\<lparr>syncingRounds := (syncingRounds s1)(diffRound lastDiff \<mapsto> syncing')\<rparr>
             in if outstanding syncing' = maskNone \<and> awaitingRetry syncing' = maskNone
                then (case hashCache s2 (diffRound lastDiff) of
                        None \<Rightarrow> None
                      | Some summary \<Rightarrow>
                          Some (s2\<lparr>syncingRounds := (syncingRounds s2)(diffRound lastDiff := None),
                                   hashCache := (hashCache s2)(diffRound lastDiff - 1 := None),
                                   lastFullyAppliedRound := diffRound lastDiff,
                                   outOfOrderApplieds :=
                                     heapPush Round summary (outOfOrderApplieds s2)\<rparr>))
                else Some s2)"

text \<open>The second branch: pop the next summary and start a finalize goroutine for it.\<close>

definition dispatchFinalize :: "workerState \<Rightarrow> workerState" where
  "dispatchFinalize s =
     s\<lparr>outOfOrderApplieds := tl (outOfOrderApplieds s),
       finalizing := finalizing s @ [hd (outOfOrderApplieds s)]\<rparr>"

text \<open>
  A new block. The rounds \<open>i\<close> with \<open>first \<le> i < bound\<close>, in ascending order, are what the
  two \<open>for\<close> loops over rounds run through.
\<close>

definition roundsFrom :: "64 word \<Rightarrow> 64 word \<Rightarrow> 64 word list" where
  "roundsFrom first bound = map of_nat [unat first ..< unat bound]"

fun fetchSummaries ::
  "(64 word \<Rightarrow> block option) \<Rightarrow> 64 word list \<Rightarrow> (64 word \<rightharpoonup> blockSummary)
     \<Rightarrow> (64 word \<rightharpoonup> blockSummary) option" where
  "fetchSummaries history [] cache = Some cache"
| "fetchSummaries history (i # rounds) cache =
     (if cache i \<noteq> None then fetchSummaries history rounds cache
      else case history i of
             None \<Rightarrow> None
           | Some oldBlock \<Rightarrow>
               fetchSummaries history rounds (cache(i \<mapsto> summaryFromBlock oldBlock)))"

fun scheduleRounds ::
  "(64 word \<rightharpoonup> blockSummary) \<Rightarrow> 64 word list
     \<Rightarrow> (64 word \<rightharpoonup> inFlight) \<times> (64 word \<times> Root \<times> Root \<times> outstandingMask) list
     \<Rightarrow> ((64 word \<rightharpoonup> inFlight) \<times> (64 word \<times> Root \<times> Root \<times> outstandingMask) list) option" where
  "scheduleRounds cache [] acc = Some acc"
| "scheduleRounds cache (i # rounds) (syncingRounds', pool) =
     (if (case syncingRounds' i of None \<Rightarrow> False | Some syncing \<Rightarrow> outstanding syncing = maskAll)
      then scheduleRounds cache rounds (syncingRounds', pool)
      else
        let syncing = (case syncingRounds' i of
                         None \<Rightarrow> \<lparr>outstanding = maskNone, awaitingRetry = maskAll\<rparr>
                       | Some syncing \<Rightarrow> syncing)
        in case cache i of
             None \<Rightarrow> None
           | Some this \<Rightarrow>
               let prevIORoot = \<lparr>Namespace = Namespace (IORoot this), Version = Version (IORoot this),
                                 Type = RootTypeIO, Hash = emptyHash\<rparr>;
                   io = (outstanding syncing AND maskIO = 0 \<and> awaitingRetry syncing AND maskIO \<noteq> 0);
                   syncing1 = (if io
                               then syncing\<lparr>outstanding := outstanding syncing OR maskIO,
                                            awaitingRetry := awaitingRetry syncing AND NOT maskIO\<rparr>
                               else syncing);
                   pool1 = (if io then pool @ [(Round this, prevIORoot, IORoot this, maskIO)]
                            else pool);
                   st = (outstanding syncing1 AND maskState = 0
                         \<and> awaitingRetry syncing1 AND maskState \<noteq> 0);
                   syncing2 = (if st
                               then syncing1\<lparr>outstanding := outstanding syncing1 OR maskState,
                                             awaitingRetry := awaitingRetry syncing1 AND NOT maskState\<rparr>
                               else syncing1)
               in if st
                  then (case cache (i - 1) of
                          None \<Rightarrow> None
                        | Some prev \<Rightarrow>
                            scheduleRounds cache rounds
                              (syncingRounds'(i \<mapsto> syncing2),
                               pool1 @ [(Round this, StateRoot prev, StateRoot this, maskState)]))
                  else scheduleRounds cache rounds (syncingRounds'(i \<mapsto> syncing2), pool1))"

text \<open>
  \<open>None\<close> is a run that ends inside the handler: the panic on a round the block history
  cannot deliver, a nil summary, or the scheduling loop \<open>for i \<le> Round\<close>, which with the
  largest round has a condition that is always true. The roots of the dummy summary for
  the undefined round are emptied roots (empty namespace, empty hash) at the next round.
\<close>

definition handleBlock ::
  "(64 word \<Rightarrow> block option) \<Rightarrow> workerState \<Rightarrow> block \<Rightarrow> workerState option" where
  "handleBlock history s blk =
     (let lastApplied = lastFullyAppliedRound s;
          cache0 = (if hashCache s lastApplied = None \<and> lastApplied = undefinedRound s
                    then (hashCache s)(lastApplied \<mapsto>
                           \<lparr>sumNamespace = hdrNamespace blk,
                            Round = lastApplied + 1,
                            IORoot = \<lparr>Namespace = 0, Version = lastApplied + 1,
                                      Type = RootTypeInvalid, Hash = emptyHash\<rparr>,
                            StateRoot = \<lparr>Namespace = 0, Version = lastApplied + 1,
                                         Type = RootTypeInvalid, Hash = emptyHash\<rparr>\<rparr>)
                    else hashCache s);
          startSummaryRound = (if lastApplied = undefinedRound s then lastApplied + 1
                               else lastApplied)
      in case fetchSummaries history (roundsFrom startSummaryRound (hdrRound blk)) cache0 of
           None \<Rightarrow> None
         | Some cache1 \<Rightarrow>
             let cache2 = (if cache1 (hdrRound blk) = None
                           then cache1(hdrRound blk \<mapsto> summaryFromBlock blk) else cache1)
             in if hdrRound blk = NOT 0 then None
                else case scheduleRounds cache2 (roundsFrom (lastApplied + 1) (hdrRound blk + 1))
                            (syncingRounds s, fetchPool s) of
                       None \<Rightarrow> None
                     | Some (syncingRounds', pool) \<Rightarrow>
                         Some (s\<lparr>hashCache := cache2, syncingRounds := syncingRounds',
                                  fetchPool := pool\<rparr>))"

text \<open>A finished fetch: a failed one is marked for retry, a successful one is queued.\<close>

definition handleDiff :: "workerState \<Rightarrow> fetchedDiff \<Rightarrow> workerState option" where
  "handleDiff s item =
     (if err item
      then (case syncingRounds s (diffRound item) of
              None \<Rightarrow> None
            | Some syncing \<Rightarrow>
                Some (s\<lparr>syncingRounds := (syncingRounds s)(diffRound item \<mapsto>
                          syncing\<lparr>outstanding := outstanding syncing AND NOT (fetchMask item),
                                  awaitingRetry := awaitingRetry syncing OR fetchMask item\<rparr>)\<rparr>))
      else Some (s\<lparr>outOfOrderDiffs := heapPush diffRound item (outOfOrderDiffs s)\<rparr>))"

text \<open>
  A finalize goroutine sends its summary on \<open>finalizeCh\<close> whatever \<open>Finalize\<close> returned;
  the loop flushes it into the cursor. \<open>k\<close> selects the goroutine whose send is received,
  \<open>putOk\<close> tells whether the write to the state store succeeds.
\<close>

definition handleFinalized :: "workerState \<Rightarrow> nat \<Rightarrow> bool \<Rightarrow> workerState" where
  "handleFinalized s k putOk =
     (if k < length (finalizing s)
      then let finalized = finalizing s ! k;
               (s', r) = flushSyncedState
                           (s\<lparr>finalizing := take k (finalizing s) @ drop (Suc k) (finalizing s)\<rparr>)
                           finalized putOk
           in s'\<lparr>cachedLastRound := r\<rparr>
      else s)"

datatype event = NewBlock block | FetchedDiff fetchedDiff | FinalizeDone nat bool | CtxDone

function mainLoop ::
  "(64 word \<Rightarrow> block option) \<Rightarrow> workerState \<Rightarrow> event list \<Rightarrow> workerState" where
  "mainLoop history s events =
     (if outOfOrderDiffs s \<noteq> []
         \<and> lastFullyAppliedRound s + 1 = diffRound (hd (outOfOrderDiffs s))
      then (case applyDiff s of
              None \<Rightarrow> s
            | Some s' \<Rightarrow> mainLoop history s' events)
      else if outOfOrderApplieds s \<noteq> []
              \<and> cachedLastRound s + 1 = Round (hd (outOfOrderApplieds s))
      then mainLoop history (dispatchFinalize s) events
      else case events of
             [] \<Rightarrow> s
           | NewBlock blk # rest \<Rightarrow>
               (case handleBlock history s blk of
                  None \<Rightarrow> s
                | Some s' \<Rightarrow> mainLoop history s' rest)
           | FetchedDiff item # rest \<Rightarrow>
               (case handleDiff s item of
                  None \<Rightarrow> s
                | Some s' \<Rightarrow> mainLoop history s' rest)
           | FinalizeDone k putOk # rest \<Rightarrow> mainLoop history (handleFinalized s k putOk) rest
           | CtxDone # rest \<Rightarrow> s)"
  by pat_completeness auto
termination
proof (relation "measures [\<lambda>(history, s, events). length events,
                           \<lambda>(history, s, events). 2 * length (outOfOrderDiffs s)
                                                    + length (outOfOrderApplieds s)]")
  show "wf (measures [\<lambda>(history, s, events). length events,
                      \<lambda>(history, s, events). 2 * length (outOfOrderDiffs s)
                                               + length (outOfOrderApplieds s)])"
    by simp
next
  fix history :: "64 word \<Rightarrow> block option" and s s' :: workerState and events :: "event list"
  assume gate: "outOfOrderDiffs s \<noteq> []
         \<and> lastFullyAppliedRound s + 1 = diffRound (hd (outOfOrderDiffs s))"
    and ap: "applyDiff s = Some s'"
  have len: "length (heapPush f x q) = Suc (length q)" for f :: "blockSummary \<Rightarrow> 64 word" and x q
    by (induction q) auto
  from ap have "length (outOfOrderDiffs s') = length (outOfOrderDiffs s) - 1
      \<and> length (outOfOrderApplieds s') \<le> Suc (length (outOfOrderApplieds s))"
    by (auto simp: applyDiff_def Let_def len split: option.splits if_splits)
  with gate show "((history, s', events), (history, s, events))
      \<in> measures [\<lambda>(history, s, events). length events,
                   \<lambda>(history, s, events). 2 * length (outOfOrderDiffs s)
                                            + length (outOfOrderApplieds s)]"
    by (cases "outOfOrderDiffs s") auto
qed (auto simp: dispatchFinalize_def)

declare mainLoop.simps [simp del]

subsection \<open>Start-up\<close>

text \<open>
  \<open>NewNode\<close> presets the cursor's round to the undefined round and then loads the persisted
  cursor over it, if there is one.
\<close>

definition loadSyncedState :: "watcherState option \<Rightarrow> watcherState" where
  "loadSyncedState persisted =
     (case persisted of
        None \<Rightarrow> \<lparr>LastBlock = \<lparr>sumNamespace = 0, Round = defaultUndefinedRound,
                              IORoot = \<lparr>Namespace = 0, Version = 0, Type = RootTypeInvalid, Hash = 0\<rparr>,
                              StateRoot = \<lparr>Namespace = 0, Version = 0, Type = RootTypeInvalid, Hash = 0\<rparr>\<rparr>\<rparr>
      | Some w \<Rightarrow> w)"

text \<open>
  Modelled from the spec: \<open>syncCheckpoints\<close> is declared outside the given sources. A
  checkpoint restore ingests chunks under a multipart insert and closes with \<open>Finalize\<close>
  of the checkpoint's roots; it succeeds, with the checkpoint's summary, when that
  \<open>Finalize\<close> succeeds. \<open>d\<close> is the node database the restore closes on.
\<close>

definition syncCheckpoints :: "badgerNodeDB \<Rightarrow> blockSummary \<Rightarrow> blockSummary option" where
  "syncCheckpoints d checkpoint =
     (if fst (Finalize d [IORoot checkpoint, StateRoot checkpoint]) = None then Some checkpoint
      else None)"

text \<open>
  The worker up to the main loop, for a genesis block of round \<open>genesisRound\<close>: the choice of
  the last finalized round, and the checkpoint sync with its one retry (\<open>restores\<close> lists
  what the attempts restore, none when checkpoint sync is disabled; \<open>putOk\<close> tells whether
  the write of the restored cursor to the state store succeeds). The exits before the
  loop, which leave the cursor as it is, are not modelled.
\<close>

definition startWorker ::
  "watcherState option \<Rightarrow> 64 word \<Rightarrow> (badgerNodeDB \<times> blockSummary) list \<Rightarrow> bool
     \<Rightarrow> workerState" where
  "startWorker persisted genesisRound restores putOk =
     (let loaded = loadSyncedState persisted;
          undefinedRound' = genesisRound - 1;
          cachedLastRound' =
            (if Round (LastBlock loaded) = defaultUndefinedRound
                \<or> Round (LastBlock loaded) < genesisRound
             then undefinedRound' else Round (LastBlock loaded));
          n = \<lparr>undefinedRound = undefinedRound',
               cachedLastRound = cachedLastRound',
               lastFullyAppliedRound = cachedLastRound',
               outOfOrderDiffs = [], outOfOrderApplieds = [],
               syncingRounds = Map.empty, hashCache = Map.empty,
               finalizing = [], fetchPool = [],
               syncedState = loaded, stateStore = persisted,
               stored = (case persisted of None \<Rightarrow> [] | Some w \<Rightarrow> [w])\<rparr>;
          synced = (case restores of
                      [] \<Rightarrow> None
                    | (d, checkpoint) # retry \<Rightarrow>
                        (case syncCheckpoints d checkpoint of
                           Some summary \<Rightarrow> Some summary
                         | None \<Rightarrow>
                             (case retry of
                                [] \<Rightarrow> None
                              | (d', checkpoint') # _ \<Rightarrow> syncCheckpoints d' checkpoint')))
      in case synced of
           None \<Rightarrow> n
         | Some summary \<Rightarrow>
             let (n', r) = flushSyncedState n summary putOk
             in n'\<lparr>cachedLastRound := r, lastFullyAppliedRound := r\<rparr>)"

definition worker ::
  "watcherState option \<Rightarrow> 64 word \<Rightarrow> (badgerNodeDB \<times> blockSummary) list \<Rightarrow> bool
     \<Rightarrow> (64 word \<Rightarrow> block option) \<Rightarrow> event list \<Rightarrow> workerState" where
  "worker persisted genesisRound restores putOk history events =
     mainLoop history (startWorker persisted genesisRound restores putOk) events"

section \<open>Conditions named by the specification\<close>

text \<open>
  The three refusals of \<open>Finalize\<close> in the words of the specification: a multipart
  restore is in progress for another version; some version has been finalized but the
  version before \<open>v\<close> has not (the last finalized version lies below \<open>v - 1\<close>); \<open>v\<close> is at
  or below the last finalized version.
\<close>

definition otherMultipart :: "badgerNodeDB \<Rightarrow> version \<Rightarrow> bool" where
  "otherMultipart d v = (multipartVersion d \<noteq> multipartVersionNone \<and> multipartVersion d \<noteq> v)"

definition previousNotFinalized :: "badgerNodeDB \<Rightarrow> version \<Rightarrow> bool" where
  "previousNotFinalized d v =
     (0 < v \<and> (\<exists>l. LastFinalizedVersion (meta d) = Some l \<and> l < v - 1))"

definition alreadyFinalized :: "badgerNodeDB \<Rightarrow> version \<Rightarrow> bool" where
  "alreadyFinalized d v = (\<exists>l. LastFinalizedVersion (meta d) = Some l \<and> v \<le> l)"

text \<open>
  A hop is a persisted write log of version \<open>v\<close> that leads from root \<open>old\<close> to root \<open>new\<close>;
  a path within the hop cap leads from the start root to the end root in one or two hops.
\<close>

definition hop :: "badgerNodeDB \<Rightarrow> version \<Rightarrow> typedHash \<Rightarrow> typedHash \<Rightarrow> bool" where
  "hop d v new old = ((v, new, old) \<in> fst ` set (writeLogKeys d))"

definition pathWithinCap :: "badgerNodeDB \<Rightarrow> version \<Rightarrow> typedHash \<Rightarrow> typedHash \<Rightarrow> bool" where
  "pathWithinCap d v endHash startHash =
     (hop d v endHash startHash \<or> (\<exists>mid. hop d v endHash mid \<and> hop d v mid startHash))"

text \<open>
  The invariant of the sync loop. With \<open>F\<close> the round after the last finalized one and
  \<open>A\<close> the round after the last fully applied one: \<open>F\<close> is not beyond \<open>A\<close>; the summaries
  being finalized followed by those queued for finalization are, in order, exactly the
  rounds from \<open>F\<close> up to \<open>A\<close>; at most one finalize goroutine is running; every cached
  summary other than that of the last fully applied round carries the round it is cached
  under, which is not the largest round; the persisted cursors are in ascending order of
  rounds, all below \<open>F\<close>; and the state store holds the last of them.
\<close>

definition cursorOrder :: "watcherState \<Rightarrow> watcherState \<Rightarrow> bool" where
  "cursorOrder c1 c2 = (Round (LastBlock c1) \<le> Round (LastBlock c2))"

definition loopInv :: "workerState \<Rightarrow> bool" where
  "loopInv s =
     (unat (cachedLastRound s + 1) \<le> unat (lastFullyAppliedRound s + 1)
      \<and> map Round (finalizing s @ outOfOrderApplieds s)
          = map of_nat [unat (cachedLastRound s + 1) ..< unat (lastFullyAppliedRound s + 1)]
      \<and> length (finalizing s) \<le> 1
      \<and> (\<forall>k summary. hashCache s k = Some summary \<and> k \<noteq> lastFullyAppliedRound s
            \<longrightarrow> Round summary = k \<and> k \<noteq> NOT 0)
      \<and> sorted_wrt cursorOrder (stored s)
      \<and> (\<forall>w \<in> set (stored s). unat (Round (LastBlock w)) < unat (cachedLastRound s + 1))
      \<and> stateStore s = (if stored s = [] then None else Some (last (stored s))))"

section \<open>Example states\<close>

text \<open>
  Roots of namespace 7, and three databases of that namespace. \<open>dbOne\<close> holds one
  finalized version, 1, with a single state root whose tree is one leaf. \<open>dbTwo\<close> is
  \<open>dbOne\<close> after three commits into version 2: an I/O root, a state root derived from the
  root of version 1 and a second state root forked from the same old root. \<open>dbRestore\<close>
  is \<open>dbOne\<close> in the middle of a multipart restore of version 5, after one chunk commit.
\<close>

definition rootS :: "version \<Rightarrow> hash_Hash \<Rightarrow> Root" where
  "rootS v h = \<lparr>Namespace = 7, Version = v, Type = RootTypeState, Hash = h\<rparr>"

definition rootIO :: "version \<Rightarrow> hash_Hash \<Rightarrow> Root" where
  "rootIO v h = \<lparr>Namespace = 7, Version = v, Type = RootTypeIO, Hash = h\<rparr>"

definition ins :: "RootType \<Rightarrow> hash_Hash \<Rightarrow> updatedNode" where
  "ins t h = \<lparr>Removed = False, NodeHash = (t, h)\<rparr>"

definition dbOne :: badgerNodeDB where
  "dbOne = \<lparr>namespace = 7, readOnly = False, discardWriteLogs = False, multipartVersion = 0,
            meta = \<lparr>metaVersion = 4, metaNamespace = 7, EarliestVersion = 1,
                    LastFinalizedVersion = Some 1, MultipartVersion = 0\<rparr>,
            nodeKeys = (\<lambda>k. [])((RootTypeState, 11) := [(1, Some (LeafNode 11 1))]),
            writeLogKeys = [((1, (RootTypeState, 11), (RootTypeState, emptyHash)), ([(''k'', ''v'')], [11]))],
            rootsMetadataKeys = [1 \<mapsto> [((RootTypeState, 11), [])]],
            rootUpdatedNodesKeys = Map.empty, multipartRestoreNodeLogKeys = []\<rparr>"

definition dbTwo :: badgerNodeDB where
  "dbTwo = \<lparr>namespace = 7, readOnly = False, discardWriteLogs = False, multipartVersion = 0,
            meta = \<lparr>metaVersion = 4, metaNamespace = 7, EarliestVersion = 1,
                    LastFinalizedVersion = Some 1, MultipartVersion = 0\<rparr>,
            nodeKeys = (\<lambda>k. [])
                       ((RootTypeState, 11) := [(1, Some (LeafNode 11 1))],
                        (RootTypeIO, 21) := [(2, Some (LeafNode 21 2))],
                        (RootTypeState, 22) :=
                          [(2, Some (InternalNode 22 2 None (Some 11) (Some 24)))],
                        (RootTypeState, 24) := [(2, Some (LeafNode 24 2))],
                        (RootTypeState, 23) := [(2, Some (LeafNode 23 2))]),
            writeLogKeys = [((1, (RootTypeState, 11), (RootTypeState, emptyHash)), ([(''k'', ''v'')], [11])),
                            ((2, (RootTypeIO, 21), (RootTypeIO, emptyHash)), ([(''i'', ''o'')], [21])),
                            ((2, (RootTypeState, 22), (RootTypeState, 11)), ([(''a'', ''b'')], [24])),
                            ((2, (RootTypeState, 23), (RootTypeState, 11)), ([(''k'', ''w'')], [23]))],
            rootsMetadataKeys =
              [1 \<mapsto> [((RootTypeState, 11), [(RootTypeState, 22), (RootTypeState, 23)])],
               2 \<mapsto> [((RootTypeIO, 21), []), ((RootTypeState, 22), []), ((RootTypeState, 23), [])]],
            rootUpdatedNodesKeys =
              [(2, (RootTypeIO, 21)) \<mapsto> [ins RootTypeIO 21],
               (2, (RootTypeState, 22)) \<mapsto> [ins RootTypeState 22, ins RootTypeState 24],
               (2, (RootTypeState, 23)) \<mapsto> [ins RootTypeState 23]],
            multipartRestoreNodeLogKeys = []\<rparr>"

definition dbRestore :: badgerNodeDB where
  "dbRestore = \<lparr>namespace = 7, readOnly = False, discardWriteLogs = False, multipartVersion = 5,
            meta = \<lparr>metaVersion = 4, metaNamespace = 7, EarliestVersion = 1,
                    LastFinalizedVersion = Some 1, MultipartVersion = 5\<rparr>,
            nodeKeys = (\<lambda>k. [])
                       ((RootTypeState, 11) := [(1, Some (LeafNode 11 1))],
                        (RootTypeState, 51) := [(5, Some (LeafNode 51 5))]),
            writeLogKeys = [((1, (RootTypeState, 11), (RootTypeState, emptyHash)), ([(''k'', ''v'')], [11]))],
            rootsMetadataKeys = [1 \<mapsto> [((RootTypeState, 11), [])],
                                 5 \<mapsto> [((RootTypeState, 51), [])]],
            rootUpdatedNodesKeys = [(5, (RootTypeState, 51)) \<mapsto> []],
            multipartRestoreNodeLogKeys = [(RootTypeState, 51)]\<rparr>"

text \<open>
  \<open>dbChain\<close> holds, at version 3, a chain of four write logs from the state root 30 over
  the roots 31, 32 and 33 to the state root 34, and the two write logs of an I/O root 36
  reached from the empty root over the root 35. \<open>dbReadOnly\<close> is \<open>dbOne\<close> opened
  read-only. \<open>baStaged\<close> is a batch on the old root of version 1 with two staged nodes
  and a write log.
\<close>

definition dbChain :: badgerNodeDB where
  "dbChain = dbOne\<lparr>writeLogKeys :=
     [((3, (RootTypeState, 31), (RootTypeState, 30)), ([(''a'', ''1'')], [])),
      ((3, (RootTypeState, 32), (RootTypeState, 31)), ([(''a'', ''2'')], [])),
      ((3, (RootTypeState, 33), (RootTypeState, 32)), ([(''a'', ''3'')], [])),
      ((3, (RootTypeState, 34), (RootTypeState, 33)), ([(''a'', ''4'')], [])),
      ((3, (RootTypeIO, 35), (RootTypeIO, emptyHash)), ([(''i'', ''1'')], [])),
      ((3, (RootTypeIO, 36), (RootTypeIO, 35)), ([(''i'', ''2'')], []))]\<rparr>"

definition dbReadOnly :: badgerNodeDB where
  "dbReadOnly = dbOne\<lparr>readOnly := True\<rparr>"

definition baStaged :: badgerBatch where
  "baStaged = \<lparr>bat = [SetNode (RootTypeState, 22) (InternalNode 22 2 None (Some 11) (Some 24)),
                       SetNode (RootTypeState, 24) (LeafNode 24 2)],
               batVersion = 2, multipartNodes = None, readTxn = None,
               oldRoot = rootS 1 11, chunk = False,
               writeLog = Some [(''a'', ''b'')], annotations = Some [24],
               updatedNodes = [ins RootTypeState 22, ins RootTypeState 24]\<rparr>"

text \<open>
  A run of the sync loop for a runtime with genesis round 5 whose persisted cursor is at
  round 1: a checkpoint of round 5 is restored on \<open>dbRestore\<close>; then the block of round
  7 arrives (the block of round 6 comes from the block history), the four fetches
  finish, the state fetch of round 7 first, and the two rounds are finalized; the write
  of the cursor of round 6 to the state store fails. \<open>exampleLateCursor\<close> is a persisted
  cursor at round 6, ahead of the last finalized version 1 of \<open>dbRestore\<close>.
\<close>

definition exampleBlock :: "64 word \<Rightarrow> block" where
  "exampleBlock r = \<lparr>hdrNamespace = 7, hdrRound = r, hdrIORoot = 100, hdrStateRoot = 200\<rparr>"

definition exampleHistory :: "64 word \<Rightarrow> block option" where
  "exampleHistory r = Some (exampleBlock r)"

definition exampleDiff :: "outstandingMask \<Rightarrow> 64 word \<Rightarrow> fetchedDiff" where
  "exampleDiff m r =
     \<lparr>fetchMask = m, fetched = True, err = False, diffRound = r,
      prevRoot = rootS r 200, thisRoot = rootS r 200, diffWriteLog = []\<rparr>"

definition exampleCursor :: watcherState where
  "exampleCursor = \<lparr>LastBlock = summaryFromBlock (exampleBlock 1)\<rparr>"

definition exampleLateCursor :: watcherState where
  "exampleLateCursor = \<lparr>LastBlock = summaryFromBlock (exampleBlock 6)\<rparr>"

definition exampleCheckpoint :: blockSummary where
  "exampleCheckpoint =
     \<lparr>sumNamespace = 7, Round = 5, IORoot = rootIO 5 52, StateRoot = rootS 5 51\<rparr>"

definition exampleEvents :: "event list" where
  "exampleEvents =
     [NewBlock (exampleBlock 7),
      FetchedDiff (exampleDiff maskState 7),
      FetchedDiff (exampleDiff maskIO 6),
      FetchedDiff (exampleDiff maskState 6),
      FetchedDiff (exampleDiff maskIO 7),
      FinalizeDone 0 False,
      FinalizeDone 0 True]"

section \<open>Verified properties\<close>

subsection \<open>HasRoot\<close>

text \<open>
  Claim C4. For every root with the database's namespace, \<open>HasRoot\<close> returns true if and
  only if the root's hash is the empty hash, or the root's version is at least the earliest
  version and the root's typed hash is a key of that version's root metadata.
\<close>

theorem HasRoot_iff:
  assumes "Namespace root = namespace d"
  shows "HasRoot d root \<longleftrightarrow>
           (Hash root = emptyHash
            \<or> (EarliestVersion (meta d) \<le> Version root
               \<and> (\<exists>rs. rootsMetadataKeys d (Version root) = Some rs
                        \<and> (Type root, Hash root) \<in> fst ` set rs)))"
proof (cases "rootsMetadataKeys d (Version root)")
  case None
  with assms show ?thesis
    by (simp add: HasRoot_def sanityCheckNamespace_def IsEmpty_def getEarliestVersion_def
        loadRootsMetadata_def not_less)
next
  case (Some rs)
  with assms show ?thesis
    by (auto simp: HasRoot_def sanityCheckNamespace_def IsEmpty_def getEarliestVersion_def
        loadRootsMetadata_def typedHashFromRoot_def typedHashFromParts_def
        map_of_eq_None_iff)
qed

theorem HasRoot_iff_witness:
  "Namespace (rootS 1 11) = namespace dbOne \<and> HasRoot dbOne (rootS 1 11)
   \<and> \<not> HasRoot dbOne (rootS 1 12) \<and> \<not> HasRoot dbOne (rootS 0 11)
   \<and> HasRoot dbOne (rootS 0 emptyHash)"
  using HasRoot_iff [of "rootS 1 11" dbOne] HasRoot_iff [of "rootS 1 12" dbOne]
    HasRoot_iff [of "rootS 0 11" dbOne] HasRoot_iff [of "rootS 0 emptyHash" dbOne]
  by (simp add: dbOne_def rootS_def emptyHash_def)

subsection \<open>Finalize\<close>

text \<open>
  Claim C9. \<open>Finalize\<close> rejects an empty list of roots, and rejects a list in which some
  root's version differs from the version of the first root; in both cases it returns an
  error and the database is the one it was called on.
\<close>

theorem Finalize_rejects:
  assumes "roots = [] \<or> (\<exists>r \<in> set roots. Version r \<noteq> Version (hd roots))"
  shows "\<exists>e. Finalize d roots = (Some e, d)"
proof (cases roots)
  case Nil
  then show ?thesis by (simp add: Finalize_def)
next
  case (Cons r0 rs)
  with assms have "list_ex (\<lambda>root. Version root \<noteq> Version r0) roots"
    by (auto simp: list_ex_iff)
  with Cons show ?thesis
    by (auto simp: Finalize_def Let_def split: prod.splits)
qed

theorem Finalize_rejects_witness:
  "(\<exists>r \<in> set [rootIO 2 21, rootS 3 22]. Version r \<noteq> Version (hd [rootIO 2 21, rootS 3 22]))
   \<and> (\<exists>e. Finalize dbOne [rootIO 2 21, rootS 3 22] = (Some e, dbOne))
   \<and> (\<exists>e. Finalize dbOne [] = (Some e, dbOne))"
  using Finalize_rejects [of "[rootIO 2 21, rootS 3 22]" dbOne] Finalize_rejects [of "[]" dbOne]
  by (simp add: rootIO_def rootS_def)

lemmas example_simps = multipartVersionNone_def getLastFinalizedVersion_def
  getEarliestVersion_def getMultipartVersion_def setMultipartVersion_def
  setLastFinalizedVersion_def setEarliestVersion_def loadRootsMetadata_def
  typedHashFromRoot_def typedHashFromParts_def sanityCheckNamespace_def IsEmpty_def
  emptyHash_def Follows_def Let_def rootS_def rootIO_def ins_def
  word_le_nat_alt word_less_nat_alt

lemma finalizeVersion_result:
  "(\<exists>e. finalizeVersion d v fin = (Some e, d))
   \<or> (fst (finalizeVersion d v fin) = None
      \<and> readOnly (snd (finalizeVersion d v fin)) = readOnly d
      \<and> multipartVersion (snd (finalizeVersion d v fin)) = multipartVersionNone
      \<and> LastFinalizedVersion (meta (snd (finalizeVersion d v fin))) = Some v)"
  by (simp add: finalizeVersion_def Let_def cleanMultipartLocked_def
      setLastFinalizedVersion_def setMultipartVersion_def split: sum.splits)

lemma Finalize_Cons:
  "Finalize d (r0 # rs) =
     (if readOnly d then (Some ErrReadOnly, d)
      else if otherMultipart d (Version r0) then (Some ErrInvalidMultipartVersion, d)
      else if multipartVersion d = multipartVersionNone \<and> previousNotFinalized d (Version r0)
      then (Some ErrNotFinalized, d)
      else if alreadyFinalized d (Version r0) then (Some ErrAlreadyFinalized, d)
      else if list_ex (\<lambda>root. Version root \<noteq> Version r0) (r0 # rs)
      then (Some ErrVersionMismatch, d)
      else finalizeVersion d (Version r0) (set (map typedHashFromRoot (r0 # rs))))"
  by (cases "LastFinalizedVersion (meta d)")
     (auto simp: Finalize_def Let_def getLastFinalizedVersion_def otherMultipart_def
       previousNotFinalized_def alreadyFinalized_def multipartVersionNone_def)

text \<open>
  Claim C1, as the code has it. On a database that is not read-only, for a non-empty list
  of roots whose first root has version \<open>V\<close>: a multipart restore in progress for another
  version gives invalid-multipart-version; otherwise, when no multipart restore is in
  progress and the version before \<open>V\<close> is not finalized, not-finalized; otherwise, when
  \<open>V\<close> is at or below the last finalized version, already-finalized. \<open>Finalize\<close>
  succeeds only when none of the three holds, and then the last finalized version is \<open>V\<close>.
\<close>

theorem Finalize_checks:
  assumes "\<not> readOnly d" and "roots = r0 # rs"
  shows "(otherMultipart d (Version r0) \<longrightarrow> Finalize d roots = (Some ErrInvalidMultipartVersion, d))
    \<and> (\<not> otherMultipart d (Version r0) \<and> multipartVersion d = multipartVersionNone
         \<and> previousNotFinalized d (Version r0)
        \<longrightarrow> Finalize d roots = (Some ErrNotFinalized, d))
    \<and> (\<not> otherMultipart d (Version r0)
         \<and> \<not> (multipartVersion d = multipartVersionNone \<and> previousNotFinalized d (Version r0))
         \<and> alreadyFinalized d (Version r0)
        \<longrightarrow> Finalize d roots = (Some ErrAlreadyFinalized, d))
    \<and> (fst (Finalize d roots) = None
        \<longrightarrow> \<not> otherMultipart d (Version r0)
            \<and> \<not> (multipartVersion d = multipartVersionNone \<and> previousNotFinalized d (Version r0))
            \<and> \<not> alreadyFinalized d (Version r0)
            \<and> LastFinalizedVersion (meta (snd (Finalize d roots))) = Some (Version r0))"
  using assms finalizeVersion_result [of d "Version r0" "set (map typedHashFromRoot (r0 # rs))"]
  by (auto simp: Finalize_Cons)

theorem Finalize_checks_witness:
  "\<not> readOnly dbTwo \<and> \<not> readOnly dbRestore
   \<and> fst (Finalize dbTwo [rootIO 2 21, rootS 2 22]) = None
   \<and> LastFinalizedVersion (meta (snd (Finalize dbTwo [rootIO 2 21, rootS 2 22]))) = Some 2
   \<and> otherMultipart dbRestore 2
   \<and> Finalize dbRestore [rootIO 2 21, rootS 2 22] = (Some ErrInvalidMultipartVersion, dbRestore)
   \<and> previousNotFinalized dbTwo 4
   \<and> Finalize dbTwo [rootS 4 41] = (Some ErrNotFinalized, dbTwo)
   \<and> alreadyFinalized dbTwo 1
   \<and> Finalize dbTwo [rootS 1 11] = (Some ErrAlreadyFinalized, dbTwo)"
proof -
  have ro: "\<not> readOnly dbTwo" "\<not> readOnly dbRestore"
    by (simp_all add: dbTwo_def dbRestore_def)
  have ok: "fst (Finalize dbTwo [rootIO 2 21, rootS 2 22]) = None"
    by (simp add: Finalize_def finalizeVersion_def finalizeRoot_def cleanMultipartLocked_def
        dbTwo_def example_simps)
  have c1: "otherMultipart dbRestore 2"
    by (simp add: otherMultipart_def dbRestore_def example_simps)
  have c2: "\<not> otherMultipart dbTwo 4" "multipartVersion dbTwo = multipartVersionNone"
    "previousNotFinalized dbTwo 4"
    by (simp_all add: otherMultipart_def previousNotFinalized_def dbTwo_def example_simps)
  have c3: "\<not> otherMultipart dbTwo 1" "\<not> previousNotFinalized dbTwo 1" "alreadyFinalized dbTwo 1"
    by (simp_all add: otherMultipart_def previousNotFinalized_def alreadyFinalized_def
        dbTwo_def example_simps)
  from ro ok c1 c2 c3
    Finalize_checks [of dbTwo "[rootIO 2 21, rootS 2 22]" "rootIO 2 21" "[rootS 2 22]"]
    Finalize_checks [of dbRestore "[rootIO 2 21, rootS 2 22]" "rootIO 2 21" "[rootS 2 22]"]
    Finalize_checks [of dbTwo "[rootS 4 41]" "rootS 4 41" "[]"]
    Finalize_checks [of dbTwo "[rootS 1 11]" "rootS 1 11" "[]"]
  show ?thesis
    by (simp add: rootIO_def rootS_def)
qed

text \<open>
  The claim as written fails during a restore: with a multipart restore in progress for
  version 5 itself and version 1 the last finalized one, the version before 5 is not
  finalized, yet \<open>Finalize\<close> of a root of version 5 succeeds.
\<close>

theorem Finalize_restore_counterexample:
  "\<not> otherMultipart dbRestore (Version (rootS 5 51))
   \<and> previousNotFinalized dbRestore (Version (rootS 5 51))
   \<and> fst (Finalize dbRestore [rootS 5 51]) = None
   \<and> fst (Finalize dbRestore [rootS 5 51]) \<noteq> Some ErrNotFinalized
   \<and> LastFinalizedVersion (meta (snd (Finalize dbRestore [rootS 5 51]))) = Some 5"
  by (simp add: Finalize_def finalizeVersion_def finalizeRoot_def cleanMultipartLocked_def
      otherMultipart_def previousNotFinalized_def dbRestore_def example_simps)

lemma word_pred_not_above: "0 < (v::version) \<Longrightarrow> \<not> v < v - 1"
  by (simp add: word_less_nat_alt unat_minus_one word_gt_0 unat_gt_0[symmetric] unat_eq_zero)

text \<open>
  Claim C6. When \<open>Finalize\<close> of a list of roots has succeeded, the same call on the
  resulting database changes nothing: it returns already-finalized and the database it
  was called on.
\<close>

theorem Finalize_twice:
  assumes "fst (Finalize d roots) = None"
  shows "Finalize (snd (Finalize d roots)) roots
           = (Some ErrAlreadyFinalized, snd (Finalize d roots))"
proof (cases roots)
  case Nil
  with assms show ?thesis by (simp add: Finalize_def split: if_splits)
next
  case (Cons r0 rs)
  let ?d' = "snd (Finalize d roots)"
  from assms Cons have ro: "\<not> readOnly d"
    by (auto simp: Finalize_Cons split: if_splits)
  from assms Cons ro have fv: "Finalize d roots
      = finalizeVersion d (Version r0) (set (map typedHashFromRoot (r0 # rs)))"
    by (auto simp: Finalize_Cons split: if_splits)
  from assms fv finalizeVersion_result [of d "Version r0" "set (map typedHashFromRoot (r0 # rs))"] ro
  have props: "\<not> readOnly ?d'" "multipartVersion ?d' = multipartVersionNone"
    "LastFinalizedVersion (meta ?d') = Some (Version r0)"
    by auto
  then have "\<not> otherMultipart ?d' (Version r0)" "alreadyFinalized ?d' (Version r0)"
    "\<not> previousNotFinalized ?d' (Version r0)"
    by (auto simp: otherMultipart_def alreadyFinalized_def previousNotFinalized_def
        word_pred_not_above)
  with props Cons show ?thesis
    by (simp add: Finalize_Cons)
qed

theorem Finalize_twice_witness:
  "fst (Finalize dbTwo [rootIO 2 21, rootS 2 22]) = None
   \<and> Finalize (snd (Finalize dbTwo [rootIO 2 21, rootS 2 22])) [rootIO 2 21, rootS 2 22]
       = (Some ErrAlreadyFinalized, snd (Finalize dbTwo [rootIO 2 21, rootS 2 22]))
   \<and> fst (Finalize dbRestore [rootS 5 51]) = None
   \<and> Finalize (snd (Finalize dbRestore [rootS 5 51])) [rootS 5 51]
       = (Some ErrAlreadyFinalized, snd (Finalize dbRestore [rootS 5 51]))"
proof -
  have ok: "fst (Finalize dbTwo [rootIO 2 21, rootS 2 22]) = None"
    by (simp add: Finalize_def finalizeVersion_def finalizeRoot_def cleanMultipartLocked_def
        dbTwo_def example_simps)
  have ok': "fst (Finalize dbRestore [rootS 5 51]) = None"
    by (simp add: Finalize_def finalizeVersion_def finalizeRoot_def cleanMultipartLocked_def
        dbRestore_def example_simps)
  from ok ok' Finalize_twice [of dbTwo "[rootIO 2 21, rootS 2 22]"]
    Finalize_twice [of dbRestore "[rootS 5 51]"]
  show ?thesis by simp
qed

subsection \<open>Prune\<close>

lemma latestAt_le: "latestAt ws ts = Some (t, x) \<Longrightarrow> t \<le> ts"
  by (induction ws arbitrary: t x) (auto split: option.splits if_splits)

lemma txnGet_batchDelete: "txnGet (batchDelete ts ws) ts = None"
  by (auto simp: txnGet_def batchDelete_def split: option.splits dest: latestAt_le)

text \<open>A delete is out of sight of a read at an earlier timestamp.\<close>

lemma txnGet_batchDelete_earlier:
  assumes "ts' < ts"
  shows "txnGet (batchDelete ts ws) ts' = txnGet ws ts'"
proof -
  from assms have "\<not> ts \<le> ts'" by simp
  then have "latestAt ((ts, None) # ws) ts' = latestAt ws ts'"
    by (simp split: option.splits)
  then show ?thesis
    by (simp add: txnGet_def batchDelete_def)
qed

lemma map_of_setKey: "map_of (setKey k v m) = (map_of m)(k \<mapsto> v)"
  by (induction m) auto

lemma setKey_keys: "fst ` set (setKey k b m) = insert k (fst ` set m)"
  by (induction m) force+

lemma distinct_setKey: "distinct (map fst m) \<Longrightarrow> distinct (map fst (setKey k b m))"
  by (induction m) (auto simp: setKey_keys)

lemma distinct_maybeLoneRoots:
  "distinct (map fst m) \<Longrightarrow> distinct (map fst (maybeLoneRoots rm m))"
  by (induction rm arbitrary: m) (auto simp: distinct_setKey)

lemma maybeLoneRoots_flag:
  "map_of (maybeLoneRoots rm m) r =
     (if \<exists>ds. (r, ds) \<in> set rm \<and> ds \<noteq> [] then Some False
      else if r \<in> fst ` set rm then (case map_of m r of None \<Rightarrow> Some True | Some b \<Rightarrow> Some b)
      else map_of m r)"
proof (induction rm arbitrary: m)
  case Nil
  show ?case by simp
next
  case (Cons p rm)
  obtain r' ds' where p: "p = (r', ds')" by (cases p)
  show ?case
    unfolding p maybeLoneRoots.simps Cons.IH
    by (auto simp: map_of_setKey image_iff split: option.splits)
qed

text \<open>The roots that \<open>Prune\<close> flags lone are the lone roots of the version.\<close>

lemma loneRoot_flagged:
  "(r, True) \<in> set (maybeLoneRoots (loadRootsMetadata d v) []) \<longleftrightarrow> loneRoot d v r"
proof -
  have "distinct (map fst (maybeLoneRoots (loadRootsMetadata d v) []))"
    by (simp add: distinct_maybeLoneRoots)
  then have "(r, True) \<in> set (maybeLoneRoots (loadRootsMetadata d v) [])
      \<longleftrightarrow> map_of (maybeLoneRoots (loadRootsMetadata d v) []) r = Some True"
    by simp
  also have "\<dots> \<longleftrightarrow> loneRoot d v r"
    unfolding maybeLoneRoots_flag by (auto simp: loneRoot_def)
  finally show ?thesis .
qed

lemma queuedFrom_Nil: "\<not> queuedFrom d root v [] k"
  by (simp add: queuedFrom_def)

lemma queuedFrom_None: "queuedFrom d root v (None # ptrs) k = queuedFrom d root v ptrs k"
  by (simp add: queuedFrom_def)

lemma queuedFrom_Some:
  assumes n: "txnGet (nodeKeys d (Type root, h)) (Version root) = Some n"
  shows "queuedFrom d root v (Some h # ptrs) k \<longleftrightarrow>
           (GetCreatedVersion n = v \<and> k = (Type root, GetHash n))
           \<or> queuedFrom d root v (children n) k \<or> queuedFrom d root v ptrs k"
proof
  assume "queuedFrom d root v (Some h # ptrs) k"
  then obtain p h' n' where p: "Some p \<in> set (Some h # ptrs)"
    and r: "reachable d (Version root) (Type root) p h'"
    and n': "txnGet (nodeKeys d (Type root, h')) (Version root) = Some n'"
    and c: "GetCreatedVersion n' = v" and k: "k = (Type root, GetHash n')"
    unfolding queuedFrom_def by blast
  show "(GetCreatedVersion n = v \<and> k = (Type root, GetHash n))
           \<or> queuedFrom d root v (children n) k \<or> queuedFrom d root v ptrs k"
  proof (cases "p = h")
    case False
    with p r n' c k have "queuedFrom d root v ptrs k"
      unfolding queuedFrom_def by auto
    then show ?thesis by simp
  next
    case True
    from r show ?thesis
    proof (cases rule: reachable.cases)
      case here
      with True n n' have "n' = n" by simp
      with c k show ?thesis by simp
    next
      case (below m ch)
      with True n have "m = n" by simp
      with below n' c k have "queuedFrom d root v (children n) k"
        unfolding queuedFrom_def by blast
      then show ?thesis by simp
    qed
  qed
next
  assume a: "(GetCreatedVersion n = v \<and> k = (Type root, GetHash n))
           \<or> queuedFrom d root v (children n) k \<or> queuedFrom d root v ptrs k"
  have h: "Some h \<in> set (Some h # ptrs)" by simp
  from a show "queuedFrom d root v (Some h # ptrs) k"
  proof (elim disjE)
    assume "GetCreatedVersion n = v \<and> k = (Type root, GetHash n)"
    with n h reachable.here [of d "Version root" "Type root" h] show ?thesis
      unfolding queuedFrom_def by blast
  next
    assume "queuedFrom d root v (children n) k"
    then obtain c h' n' where c: "Some c \<in> set (children n)"
      and r: "reachable d (Version root) (Type root) c h'"
      and n': "txnGet (nodeKeys d (Type root, h')) (Version root) = Some n'"
      and cv: "GetCreatedVersion n' = v" and k: "k = (Type root, GetHash n')"
      unfolding queuedFrom_def by blast
    from reachable.below [OF n c r] have "reachable d (Version root) (Type root) h h'" .
    with h n' cv k show ?thesis
      unfolding queuedFrom_def by blast
  next
    assume "queuedFrom d root v ptrs k"
    then show ?thesis
      unfolding queuedFrom_def by auto
  qed
qed

text \<open>
  A traversal that returns has queued exactly the keys of the nodes created in the pruned
  version that it reached, on top of what the batch held before.
\<close>

lemma doVisit_prune:
  assumes "doVisit fuel d root (pruneVisitor v root) ptrs b = Some (Inr b')"
  shows "k \<in> set b' \<longleftrightarrow> k \<in> set b \<or> queuedFrom d root v ptrs k"
  using assms
proof (induction fuel d root "pruneVisitor v root" ptrs b arbitrary: b'
       rule: doVisit.induct)
  case (1 fuel d root s)
  then show ?case by (simp add: queuedFrom_Nil)
next
  case (2 fuel d root ptrs s)
  then show ?case by (simp add: queuedFrom_None)
next
  case (3 d root h ptrs s)
  then show ?case by simp
next
  case (4 fuel d root h ptrs s)
  from "4.prems" obtain n where gn: "GetNode d root h = Inr n"
    by (auto split: sum.splits)
  with "4.prems" obtain s1 where
    v1: "doVisit fuel d root (pruneVisitor v root) (children n) (pruneVisitor v root n s)
           = Some (Inr s1)"
    and v2: "doVisit (Suc fuel) d root (pruneVisitor v root) ptrs s1 = Some (Inr b')"
    by (auto split: sum.splits option.splits)
  from gn have nk: "txnGet (nodeKeys d (Type root, h)) (Version root) = Some n"
    by (auto simp: GetNode_def typedHashFromParts_def split: option.splits if_splits)
  note ih1 = "4.hyps"(1) [OF gn v1]
  note ih2 = "4.hyps"(2) [OF gn v1 refl v2]
  have vis: "k \<in> set (pruneVisitor v root n s) \<longleftrightarrow>
      k \<in> set s \<or> (GetCreatedVersion n = v \<and> k = (Type root, GetHash n))"
    by (auto simp: pruneVisitor_def typedHashFromParts_def)
  from ih1 ih2 vis show ?case
    unfolding queuedFrom_Some [OF nk] by blast
qed

lemma pruneRoots_covers:
  assumes "pruneRoots fuel d v flags b = Some (Inr b')"
  shows "k \<in> set b' \<longleftrightarrow> k \<in> set b
         \<or> (\<exists>r. (r, True) \<in> set flags
               \<and> queuedFrom d \<lparr>Namespace = namespace d, Version = v, Type = fst r, Hash = snd r\<rparr>
                    v [Some (snd r)] k)"
proof -
  define Q where "Q r = queuedFrom d \<lparr>Namespace = namespace d, Version = v, Type = fst r, Hash = snd r\<rparr>
                    v [Some (snd r)] k" for r
  from assms have "k \<in> set b' \<longleftrightarrow> k \<in> set b \<or> (\<exists>r. (r, True) \<in> set flags \<and> Q r)"
  proof (induction flags arbitrary: b)
    case Nil
    then show ?case by simp
  next
    case (Cons f flags)
    obtain r isLone where f: "f = (r, isLone)" by (cases f)
    show ?case
    proof (cases isLone)
      case False
      with Cons.prems f have "pruneRoots fuel d v flags b = Some (Inr b')" by simp
      from Cons.IH [OF this] have "k \<in> set b' \<longleftrightarrow> k \<in> set b \<or> (\<exists>r. (r, True) \<in> set flags \<and> Q r)" .
      moreover have "(r', True) \<in> set (f # flags) \<longleftrightarrow> (r', True) \<in> set flags" for r'
        using f False by simp
      ultimately show ?thesis by simp
    next
      case True
      let ?root = "\<lparr>Namespace = namespace d, Version = v, Type = fst r, Hash = snd r\<rparr>"
      from Cons.prems f True obtain b1 where
        v1: "Visit fuel d ?root (pruneVisitor v ?root) b = Some (Inr b1)"
        and v2: "pruneRoots fuel d v flags b1 = Some (Inr b')"
        by (auto simp: Let_def split: option.splits sum.splits)
      from doVisit_prune [OF v1 [unfolded Visit_def]]
      have c1: "k \<in> set b1 \<longleftrightarrow> k \<in> set b \<or> Q r"
        by (simp add: Q_def)
      have mem: "(r', True) \<in> set (f # flags) \<longleftrightarrow> r' = r \<or> (r', True) \<in> set flags" for r'
        using f True by simp
      from Cons.IH [OF v2] c1 show ?thesis
        unfolding mem by blast
    qed
  qed
  then show ?thesis by (simp add: Q_def)
qed

lemma createdUnderLoneRoot_queued:
  "createdUnderLoneRoot d v k \<longleftrightarrow>
     (\<exists>r. loneRoot d v r
        \<and> queuedFrom d \<lparr>Namespace = namespace d, Version = v, Type = fst r, Hash = snd r\<rparr>
             v [Some (snd r)] k)"
  by (simp add: createdUnderLoneRoot_def queuedFrom_def)

lemma Prune_unfold:
  "Prune fuel d v =
     (if readOnly d then Some (Some ErrReadOnly, d)
      else if multipartVersion d \<noteq> multipartVersionNone then Some (Some ErrMultipartInProgress, d)
      else if LastFinalizedVersion (meta d) = None
              \<or> (\<exists>l. LastFinalizedVersion (meta d) = Some l \<and> l < v)
      then Some (Some ErrNotFinalized, d)
      else if v \<noteq> EarliestVersion (meta d) then Some (Some ErrNotEarliest, d)
      else
          case pruneRoots fuel d v (maybeLoneRoots (loadRootsMetadata d v) []) [] of
            None \<Rightarrow> None
          | Some (Inl e) \<Rightarrow> Some (Some e, d)
          | Some (Inr batch) \<Rightarrow>
              Some (None,
                d\<lparr>nodeKeys := (\<lambda>h. if h \<in> set batch then batchDelete v (nodeKeys d h)
                                   else nodeKeys d h),
                  writeLogKeys :=
                    (if discardWriteLogs d then writeLogKeys d
                     else filter (\<lambda>(k, l). fst k \<noteq> v) (writeLogKeys d)),
                  rootsMetadataKeys := (rootsMetadataKeys d)(v := None),
                  meta := setEarliestVersion (meta d) (v + 1)\<rparr>))"
  by (cases "LastFinalizedVersion (meta d)")
     (auto simp: Prune_def getLastFinalizedVersion_def getEarliestVersion_def)

text \<open>
  Claim C2, as the code has it. On a database that is not read-only and has no multipart
  restore in progress: \<open>Prune\<close> of version \<open>V\<close> fails with not-finalized when nothing has
  been finalized or \<open>V\<close> is above the last finalized version; it fails with not-earliest
  when \<open>V\<close> is finalized but is not the earliest version; and when it succeeds, the root
  metadata of \<open>V\<close> is gone and that of every other version kept; the write logs of \<open>V\<close> are
  gone and those of every other version kept, unless the database discards write logs, in
  which case the write-log family is as it was; the key of every node created in \<open>V\<close> and
  reachable from a lone root of \<open>V\<close> is deleted at the timestamp of \<open>V\<close>, so that a read at
  \<open>V\<close> no longer finds it, and every other node key is as it was; the earliest version is
  \<open>V + 1\<close>; and nothing else of the database has changed.
\<close>

theorem Prune_contract:
  assumes "\<not> readOnly d" and "multipartVersion d = multipartVersionNone"
  shows "(LastFinalizedVersion (meta d) = None
            \<or> (\<exists>l. LastFinalizedVersion (meta d) = Some l \<and> l < v)
          \<longrightarrow> Prune fuel d v = Some (Some ErrNotFinalized, d))
    \<and> ((\<exists>l. LastFinalizedVersion (meta d) = Some l \<and> v \<le> l) \<and> v \<noteq> EarliestVersion (meta d)
          \<longrightarrow> Prune fuel d v = Some (Some ErrNotEarliest, d))
    \<and> (Prune fuel d v = Some (None, d')
          \<longrightarrow> rootsMetadataKeys d' = (rootsMetadataKeys d)(v := None)
              \<and> (discardWriteLogs d \<longrightarrow> writeLogKeys d' = writeLogKeys d)
              \<and> (\<not> discardWriteLogs d
                    \<longrightarrow> writeLogKeys d' = filter (\<lambda>(k, l). fst k \<noteq> v) (writeLogKeys d))
              \<and> (\<forall>k. createdUnderLoneRoot d v k
                    \<longrightarrow> nodeKeys d' k = batchDelete v (nodeKeys d k)
                        \<and> txnGet (nodeKeys d' k) v = None)
              \<and> (\<forall>k. \<not> createdUnderLoneRoot d v k \<longrightarrow> nodeKeys d' k = nodeKeys d k)
              \<and> meta d' = (meta d)\<lparr>EarliestVersion := v + 1\<rparr>
              \<and> rootUpdatedNodesKeys d' = rootUpdatedNodesKeys d
              \<and> multipartRestoreNodeLogKeys d' = multipartRestoreNodeLogKeys d
              \<and> namespace d' = namespace d \<and> readOnly d' = readOnly d
              \<and> discardWriteLogs d' = discardWriteLogs d
              \<and> multipartVersion d' = multipartVersion d)"
proof (intro conjI impI)
  assume "LastFinalizedVersion (meta d) = None
            \<or> (\<exists>l. LastFinalizedVersion (meta d) = Some l \<and> l < v)"
  with assms show "Prune fuel d v = Some (Some ErrNotFinalized, d)"
    by (simp add: Prune_unfold)
next
  assume "(\<exists>l. LastFinalizedVersion (meta d) = Some l \<and> v \<le> l) \<and> v \<noteq> EarliestVersion (meta d)"
  with assms show "Prune fuel d v = Some (Some ErrNotEarliest, d)"
    by (auto simp: Prune_unfold)
next
  assume ok: "Prune fuel d v = Some (None, d')"
  with assms obtain batch where
    pr: "pruneRoots fuel d v (maybeLoneRoots (loadRootsMetadata d v) []) [] = Some (Inr batch)"
    and d': "d' = d\<lparr>nodeKeys := (\<lambda>h. if h \<in> set batch then batchDelete v (nodeKeys d h)
                                   else nodeKeys d h),
                  writeLogKeys :=
                    (if discardWriteLogs d then writeLogKeys d
                     else filter (\<lambda>(k, l). fst k \<noteq> v) (writeLogKeys d)),
                  rootsMetadataKeys := (rootsMetadataKeys d)(v := None),
                  meta := setEarliestVersion (meta d) (v + 1)\<rparr>"
    by (auto simp: Prune_unfold split: if_splits option.splits sum.splits)
  have batch: "k \<in> set batch \<longleftrightarrow> createdUnderLoneRoot d v k" for k
    unfolding pruneRoots_covers [OF pr] createdUnderLoneRoot_queued loneRoot_flagged
    by simp
  from d' show "rootsMetadataKeys d' = (rootsMetadataKeys d)(v := None)" by simp
  from d' show "discardWriteLogs d \<Longrightarrow> writeLogKeys d' = writeLogKeys d" by simp
  from d' show "\<not> discardWriteLogs d
      \<Longrightarrow> writeLogKeys d' = filter (\<lambda>(k, l). fst k \<noteq> v) (writeLogKeys d)" by simp
  from d' show "\<forall>k. createdUnderLoneRoot d v k
                    \<longrightarrow> nodeKeys d' k = batchDelete v (nodeKeys d k)
                        \<and> txnGet (nodeKeys d' k) v = None"
    by (simp add: batch txnGet_batchDelete)
  from d' show "\<forall>k. \<not> createdUnderLoneRoot d v k \<longrightarrow> nodeKeys d' k = nodeKeys d k"
    by (simp add: batch)
  from d' show "meta d' = (meta d)\<lparr>EarliestVersion := v + 1\<rparr>"
    by (simp add: setEarliestVersion_def)
  from d' show "rootUpdatedNodesKeys d' = rootUpdatedNodesKeys d" by simp
  from d' show "multipartRestoreNodeLogKeys d' = multipartRestoreNodeLogKeys d" by simp
  from d' show "namespace d' = namespace d" by simp
  from d' show "readOnly d' = readOnly d" by simp
  from d' show "discardWriteLogs d' = discardWriteLogs d" by simp
  from d' show "multipartVersion d' = multipartVersion d" by simp
qed

text \<open>
  Evaluation on \<open>dbOne\<close>, whose only root of version 1 is lone: \<open>Prune\<close> of version 1
  deletes its leaf, the root record and the write log. On \<open>dbTwo\<close> the root of version 1
  has derived roots, and \<open>Prune\<close> of version 1 leaves every node key as it was.
\<close>

theorem Prune_contract_witness:
  "\<not> readOnly dbOne \<and> multipartVersion dbOne = multipartVersionNone
   \<and> Prune (Suc 0) dbOne 2 = Some (Some ErrNotFinalized, dbOne)
   \<and> Prune (Suc 0) dbOne 0 = Some (Some ErrNotEarliest, dbOne)
   \<and> (\<exists>d'. Prune (Suc 0) dbOne 1 = Some (None, d')
          \<and> createdUnderLoneRoot dbOne 1 (RootTypeState, 11)
          \<and> txnGet (nodeKeys dbOne (RootTypeState, 11)) 1 = Some (LeafNode 11 1)
          \<and> txnGet (nodeKeys d' (RootTypeState, 11)) 1 = None
          \<and> rootsMetadataKeys d' 1 = None \<and> writeLogKeys d' = []
          \<and> EarliestVersion (meta d') = 2)
   \<and> (\<exists>d'. Prune (Suc 0) dbTwo 1 = Some (None, d') \<and> nodeKeys d' = nodeKeys dbTwo
          \<and> map fst (writeLogKeys d')
              = [(2, (RootTypeIO, 21), (RootTypeIO, emptyHash)),
                 (2, (RootTypeState, 22), (RootTypeState, 11)),
                 (2, (RootTypeState, 23), (RootTypeState, 11))])"
proof -
  have pre: "\<not> readOnly dbOne" "multipartVersion dbOne = multipartVersionNone"
    by (simp_all add: dbOne_def multipartVersionNone_def)
  have pre2: "\<not> readOnly dbTwo" "multipartVersion dbTwo = multipartVersionNone"
    by (simp_all add: dbTwo_def multipartVersionNone_def)
  have lf: "LastFinalizedVersion (meta dbOne) = Some 1" "EarliestVersion (meta dbOne) = 1"
    by (simp_all add: dbOne_def)
  obtain d' where ok: "Prune (Suc 0) dbOne 1 = Some (None, d')"
    by (simp add: Prune_def Visit_def GetNode_def pruneVisitor_def txnGet_def dbOne_def
        example_simps)
  obtain d2 where ok2: "Prune (Suc 0) dbTwo 1 = Some (None, d2)"
    by (simp add: Prune_def Visit_def GetNode_def pruneVisitor_def txnGet_def dbTwo_def
        example_simps)
  have lone: "loneRoot dbOne 1 (RootTypeState, 11)"
    by (simp add: loneRoot_def dbOne_def loadRootsMetadata_def)
  have nd: "txnGet (nodeKeys dbOne (RootTypeState, 11)) 1 = Some (LeafNode 11 1)"
    by (simp add: dbOne_def txnGet_def)
  have "reachable dbOne 1 RootTypeState 11 11"
    by (rule reachable.here)
  with lone nd have cr: "createdUnderLoneRoot dbOne 1 (RootTypeState, 11)"
    unfolding createdUnderLoneRoot_def by force
  have nolone: "\<not> createdUnderLoneRoot dbTwo 1 k" for k
    by (auto simp: createdUnderLoneRoot_def loneRoot_def dbTwo_def loadRootsMetadata_def)
  have dis: "\<not> discardWriteLogs dbOne" "\<not> discardWriteLogs dbTwo"
    by (simp_all add: dbOne_def dbTwo_def)
  from Prune_contract [OF pre, of 1 "Suc 0" d'] ok cr
  have del1: "txnGet (nodeKeys d' (RootTypeState, 11)) 1 = None"
    by blast
  from Prune_contract [OF pre, of 1 "Suc 0" d'] ok dis
  have del2: "rootsMetadataKeys d' 1 = None \<and> writeLogKeys d' = []
      \<and> EarliestVersion (meta d') = 2"
    by (simp add: dbOne_def)
  from del1 del2
  have del: "txnGet (nodeKeys d' (RootTypeState, 11)) 1 = None \<and> rootsMetadataKeys d' 1 = None
      \<and> writeLogKeys d' = [] \<and> EarliestVersion (meta d') = 2"
    by simp
  from Prune_contract [OF pre2, of 1 "Suc 0" d2] ok2 nolone
  have keep1: "nodeKeys d2 = nodeKeys dbTwo"
    by (intro ext) blast
  from Prune_contract [OF pre2, of 1 "Suc 0" d2] ok2 dis
  have keep2: "map fst (writeLogKeys d2)
              = [(2, (RootTypeIO, 21), (RootTypeIO, emptyHash)),
                 (2, (RootTypeState, 22), (RootTypeState, 11)),
                 (2, (RootTypeState, 23), (RootTypeState, 11))]"
    by (simp add: dbTwo_def)
  note keep = conjI [OF keep1 keep2]
  from Prune_contract [OF pre, of 2 "Suc 0" d'] lf
  have e1: "Prune (Suc 0) dbOne 2 = Some (Some ErrNotFinalized, dbOne)"
    by (simp add: word_less_nat_alt)
  from Prune_contract [OF pre, of 0 "Suc 0" d'] lf
  have e2: "Prune (Suc 0) dbOne 0 = Some (Some ErrNotEarliest, dbOne)"
    by (simp add: word_le_nat_alt)
  from pre ok ok2 cr nd del keep e1 e2 show ?thesis by simp
qed

text \<open>
  The claim as written fails while a multipart restore is in progress: version 3 is above
  the last finalized version 1, yet \<open>Prune\<close> answers multipart-in-progress, not
  not-finalized.
\<close>

theorem Prune_multipart_counterexample:
  "LastFinalizedVersion (meta dbRestore) = Some 1 \<and> (1::version) < 3
   \<and> Prune (Suc 0) dbRestore 3 = Some (Some ErrMultipartInProgress, dbRestore)
   \<and> Prune (Suc 0) dbRestore 3 \<noteq> Some (Some ErrNotFinalized, dbRestore)"
  by (simp add: Prune_def dbRestore_def example_simps)

text \<open>
  Claim C7, as the code has it. \<open>Prune\<close> of a version above the last finalized version
  never succeeds, but \<open>Prune\<close> of the last finalized version itself is not refused. After
  a successful \<open>Prune\<close> of \<open>V\<close> the last finalized version is unchanged and at least \<open>V\<close>,
  and the earliest version is \<open>V + 1\<close>, hence at most one above the last finalized version.
\<close>

theorem Prune_finalized_bound:
  assumes "Prune fuel d v = Some (None, d')"
  shows "\<exists>l. LastFinalizedVersion (meta d) = Some l \<and> LastFinalizedVersion (meta d') = Some l
             \<and> v \<le> l \<and> EarliestVersion (meta d') = v + 1
             \<and> unat (EarliestVersion (meta d')) \<le> unat l + 1"
proof -
  from assms obtain l where l: "LastFinalizedVersion (meta d) = Some l" "v \<le> l"
    by (cases "LastFinalizedVersion (meta d)")
       (auto simp: Prune_unfold split: if_splits)
  from assms l have m: "meta d' = setEarliestVersion (meta d) (v + 1)"
    by (auto simp: Prune_unfold split: if_splits option.splits sum.splits)
  have "unat (v + 1) \<le> unat v + 1"
    by (simp add: unat_word_ariths)
  moreover from l have "unat v \<le> unat l"
    by (simp add: word_le_nat_alt)
  ultimately show ?thesis
    using l m by (simp add: setEarliestVersion_def)
qed

theorem Prune_finalized_bound_witness:
  "\<exists>d'. Prune (Suc 0) dbOne 1 = Some (None, d')
        \<and> LastFinalizedVersion (meta d') = Some 1 \<and> EarliestVersion (meta d') = 2"
proof -
  obtain d' where ok: "Prune (Suc 0) dbOne 1 = Some (None, d')"
    by (simp add: Prune_def Visit_def GetNode_def pruneVisitor_def txnGet_def dbOne_def
        example_simps)
  have "LastFinalizedVersion (meta dbOne) = Some 1"
    by (simp add: dbOne_def)
  with Prune_finalized_bound [OF ok] ok show ?thesis
    by auto
qed

text \<open>
  The claim as written fails: version 1 is both the earliest and the last finalized
  version of \<open>dbOne\<close>, \<open>Prune\<close> of version 1 succeeds, and afterwards the earliest
  version 2 is above the last finalized version 1.
\<close>

theorem Prune_last_finalized_counterexample:
  "LastFinalizedVersion (meta dbOne) = Some 1
   \<and> fst (the (Prune (Suc 0) dbOne 1)) = None
   \<and> LastFinalizedVersion (meta (snd (the (Prune (Suc 0) dbOne 1)))) = Some 1
   \<and> EarliestVersion (meta (snd (the (Prune (Suc 0) dbOne 1)))) = 2
   \<and> \<not> EarliestVersion (meta (snd (the (Prune (Suc 0) dbOne 1)))) \<le> (1::version)"
  by (simp add: Prune_def Visit_def GetNode_def pruneVisitor_def txnGet_def dbOne_def
      example_simps)

subsection \<open>Read-only databases\<close>

text \<open>
  Claim C8, as the code has it. On a database opened read-only, \<open>Finalize\<close>, \<open>Prune\<close> and
  \<open>NewBatch\<close> fail with the read-only error and leave the database as it was.
  \<open>AbortMultipartInsert\<close> with no restore in progress returns without error and leaves
  the database as it was.
\<close>

theorem readOnly_refused:
  assumes "readOnly d"
  shows "Finalize d roots = (Some ErrReadOnly, d)
    \<and> Prune fuel d v = Some (Some ErrReadOnly, d)
    \<and> NewBatch d old v' c = Inl ErrReadOnly
    \<and> (multipartVersion d = multipartVersionNone \<and> MultipartVersion (meta d) = multipartVersionNone
        \<longrightarrow> AbortMultipartInsert d = (None, d))"
  using assms
  by (simp add: Finalize_def Prune_def NewBatch_def AbortMultipartInsert_def
      cleanMultipartLocked_def getMultipartVersion_def)

theorem readOnly_refused_witness:
  "readOnly dbReadOnly
   \<and> Finalize dbReadOnly [rootS 2 22] = (Some ErrReadOnly, dbReadOnly)
   \<and> Prune (Suc 0) dbReadOnly 1 = Some (Some ErrReadOnly, dbReadOnly)
   \<and> NewBatch dbReadOnly (rootS 1 11) 2 False = Inl ErrReadOnly
   \<and> multipartVersion dbReadOnly = multipartVersionNone
   \<and> MultipartVersion (meta dbReadOnly) = multipartVersionNone
   \<and> AbortMultipartInsert dbReadOnly = (None, dbReadOnly)"
proof -
  have "readOnly dbReadOnly" "multipartVersion dbReadOnly = multipartVersionNone"
    "MultipartVersion (meta dbReadOnly) = multipartVersionNone"
    by (simp_all add: dbReadOnly_def dbOne_def multipartVersionNone_def)
  with readOnly_refused [of dbReadOnly "[rootS 2 22]" "Suc 0" 1 "rootS 1 11" 2 False]
  show ?thesis by simp
qed

text \<open>
  The claim as written fails for the multipart operations: on the read-only \<open>dbReadOnly\<close>,
  \<open>AbortMultipartInsert\<close> returns without error and \<open>StartMultipartInsert\<close> of version 0
  fails with invalid-multipart-version.
\<close>

theorem readOnly_multipart_counterexample:
  "readOnly dbReadOnly
   \<and> AbortMultipartInsert dbReadOnly = (None, dbReadOnly)
   \<and> fst (AbortMultipartInsert dbReadOnly) \<noteq> Some ErrReadOnly
   \<and> StartMultipartInsert dbReadOnly 0 = (Some ErrInvalidMultipartVersion, dbReadOnly)"
  by (simp add: dbReadOnly_def dbOne_def AbortMultipartInsert_def cleanMultipartLocked_def
      StartMultipartInsert_def example_simps)

subsection \<open>Commit of a registered root\<close>

text \<open>
  Claim C10, as the code has it. \<open>Commit\<close> of a batch that is not a chunk batch, for a new
  root already registered in its version's root metadata, never changes the database. When
  the commit passes the checks made before the root is looked up (no multipart restore in
  progress for another version, the root has the database's namespace and follows the
  batch's old root, the root's version is not yet finalized), it succeeds and resets the
  batch: the staged node writes, the updated-nodes list and the write log are dropped.
\<close>

theorem Commit_registered:
  assumes "\<not> chunk ba"
    and "(Type root, Hash root) \<in> fst ` set (loadRootsMetadata d (Version root))"
  shows "fst (snd (Commit d ba root)) = d
    \<and> (\<not> otherMultipart d (Version root) \<and> Namespace root = namespace d
         \<and> Follows root (oldRoot ba) \<and> \<not> alreadyFinalized d (Version root)
        \<longrightarrow> Commit d ba root = (None, d, Reset ba)
            \<and> bat (Reset ba) = [] \<and> updatedNodes (Reset ba) = []
            \<and> writeLog (Reset ba) = None \<and> annotations (Reset ba) = None)"
proof -
  from assms(2) have reg: "map_of (loadRootsMetadata d (Version root)) (typedHashFromRoot root) \<noteq> None"
    by (simp add: map_of_eq_None_iff typedHashFromRoot_def typedHashFromParts_def)
  show ?thesis
  proof (cases "LastFinalizedVersion (meta d)")
    case None
    with assms(1) reg show ?thesis
      by (simp add: Commit_def Let_def getLastFinalizedVersion_def sanityCheckNamespace_def
          otherMultipart_def alreadyFinalized_def BaseBatch_Commit_def Reset_def)
  next
    case (Some l)
    with assms(1) reg show ?thesis
      by (simp add: Commit_def Let_def getLastFinalizedVersion_def sanityCheckNamespace_def
          otherMultipart_def alreadyFinalized_def BaseBatch_Commit_def Reset_def)
  qed
qed

theorem Commit_registered_witness:
  "\<not> chunk baStaged
   \<and> (Type (rootS 2 22), Hash (rootS 2 22)) \<in> fst ` set (loadRootsMetadata dbTwo (Version (rootS 2 22)))
   \<and> Commit dbTwo baStaged (rootS 2 22) = (None, dbTwo, Reset baStaged)
   \<and> bat baStaged \<noteq> [] \<and> bat (Reset baStaged) = []"
proof -
  have a: "\<not> chunk baStaged"
    "(Type (rootS 2 22), Hash (rootS 2 22)) \<in> fst ` set (loadRootsMetadata dbTwo (Version (rootS 2 22)))"
    by (simp_all add: baStaged_def dbTwo_def rootS_def loadRootsMetadata_def)
  have b: "\<not> otherMultipart dbTwo (Version (rootS 2 22))" "Namespace (rootS 2 22) = namespace dbTwo"
    "Follows (rootS 2 22) (oldRoot baStaged)" "\<not> alreadyFinalized dbTwo (Version (rootS 2 22))"
    by (simp_all add: otherMultipart_def alreadyFinalized_def baStaged_def dbTwo_def example_simps)
  have c: "bat baStaged \<noteq> []" by (simp add: baStaged_def)
  from Commit_registered [OF a] a b c show ?thesis by simp
qed

text \<open>
  The claim as written fails when the registered root lies in a finalized version: the
  state root of version 1 is registered in \<open>dbOne\<close> and version 1 is finalized, and the
  commit of a batch for that root fails with already-finalized.
\<close>

theorem Commit_finalized_counterexample:
  "\<not> chunk (baStaged\<lparr>oldRoot := rootS 1 emptyHash\<rparr>)
   \<and> (Type (rootS 1 11), Hash (rootS 1 11)) \<in> fst ` set (loadRootsMetadata dbOne (Version (rootS 1 11)))
   \<and> fst (Commit dbOne (baStaged\<lparr>oldRoot := rootS 1 emptyHash\<rparr>) (rootS 1 11)) = Some ErrAlreadyFinalized"
  by (simp add: Commit_def baStaged_def dbOne_def example_simps)

subsection \<open>GetWriteLog\<close>

lemma writeLogsInto_hop:
  assumes "key \<in> set (writeLogsInto d v h)"
  shows "fst key = v \<and> fst (snd key) = h \<and> hop d v h (snd (snd key))"
proof -
  from assms obtain l where "(key, l) \<in> set (writeLogKeys d)" "fst key = v" "fst (snd key) = h"
    by (auto simp: writeLogsInto_def)
  then show ?thesis
    by (cases key) (force simp: hop_def)
qed

lemma scanWriteLogs_found:
  assumes "scanWriteLogs s cur keys q = Inl found"
  shows "\<exists>key \<in> set keys. snd (snd key) = s"
  using assms
  by (induction keys arbitrary: q) (auto simp: Let_def split: if_splits)

lemma scanWriteLogs_queue:
  assumes "scanWriteLogs s cur keys q = Inr q'" and "it \<in> set q'"
  shows "it \<in> set q
         \<or> (depth it = depth cur + 1 \<and> depth it < maxAllowedHops
            \<and> (\<exists>key \<in> set keys. endRootHash it = snd (snd key)))"
  using assms
proof (induction keys arbitrary: q)
  case Nil
  then show ?case by simp
next
  case (Cons key keys)
  let ?next = "\<lparr>depth = depth cur + 1, endRootHash = snd (snd key),
                 logKeys = logKeys cur @ [key], logRoots = logRoots cur @ [endRootHash cur]\<rparr>"
  from Cons.prems(1) have ns: "snd (snd key) \<noteq> s"
    by (auto simp: Let_def split: if_splits)
  show ?case
  proof (cases "depth cur + 1 < maxAllowedHops")
    case True
    with Cons.prems(1) ns have "scanWriteLogs s cur keys (q @ [?next]) = Inr q'"
      by (simp add: Let_def)
    from Cons.IH [OF this Cons.prems(2)] True show ?thesis
      by auto
  next
    case False
    with Cons.prems(1) ns have "scanWriteLogs s cur keys q = Inr q'"
      by (simp add: Let_def)
    from Cons.IH [OF this Cons.prems(2)] show ?thesis
      by auto
  qed
qed

text \<open>
  Every item of the queue is the end root itself at depth 0, or a root one hop before it at
  depth 1. Without a path of one or two hops the search finds nothing.
\<close>

lemma searchWriteLogs_none:
  assumes "\<not> pathWithinCap d v e s"
    and "\<forall>it \<in> set queue. (depth it = 0 \<and> endRootHash it = e)
                          \<or> (depth it = 1 \<and> hop d v e (endRootHash it))"
  shows "searchWriteLogs d v s queue = None"
  using assms
proof (induction d v s queue rule: searchWriteLogs.induct)
  case (1 d v startRootHash)
  show ?case by simp
next
  case (2 d v startRootHash curItem queue)
  let ?keys = "writeLogsInto d v (endRootHash curItem)"
  note nopath = "2.prems"(1) and inv = "2.prems"(2)
  from inv have cur: "(depth curItem = 0 \<and> endRootHash curItem = e)
                          \<or> (depth curItem = 1 \<and> hop d v e (endRootHash curItem))"
    by simp
  show ?case
  proof (cases "scanWriteLogs startRootHash curItem ?keys queue")
    case (Inl found)
    from scanWriteLogs_found [OF Inl] obtain key where
      "key \<in> set ?keys" "snd (snd key) = startRootHash" by blast
    with writeLogsInto_hop [of key d v "endRootHash curItem"]
    have "hop d v (endRootHash curItem) startRootHash" by simp
    with cur nopath have False
      unfolding pathWithinCap_def by blast
    then show ?thesis ..
  next
    case (Inr queue')
    have "\<forall>it \<in> set queue'. (depth it = 0 \<and> endRootHash it = e)
                          \<or> (depth it = 1 \<and> hop d v e (endRootHash it))"
    proof
      fix it assume it: "it \<in> set queue'"
      from scanWriteLogs_queue [OF Inr it]
      show "(depth it = 0 \<and> endRootHash it = e) \<or> (depth it = 1 \<and> hop d v e (endRootHash it))"
      proof
        assume "it \<in> set queue"
        with inv show ?thesis by simp
      next
        assume new: "depth it = depth curItem + 1 \<and> depth it < maxAllowedHops
            \<and> (\<exists>key \<in> set ?keys. endRootHash it = snd (snd key))"
        then obtain key where key: "key \<in> set ?keys" "endRootHash it = snd (snd key)"
          by blast
        from new cur have d0: "depth curItem = 0" "endRootHash curItem = e" "depth it = 1"
          by (auto simp: maxAllowedHops_def)
        with writeLogsInto_hop [OF key(1)] key(2) show ?thesis
          by simp
      qed
    qed
    with "2.IH" [OF Inr nopath] Inr show ?thesis
      by simp
  qed
qed

text \<open>
  Claim C3, as the code has it. When no path of one or two persisted write logs of the
  end root's version leads from the end root back to the start root, \<open>GetWriteLog\<close> never
  returns a write log; and when moreover the end root follows the start root and the
  start root has the database's namespace, it fails with write-log-not-found. (When the
  end root does not follow the start root, or the namespace is another one, it fails with
  the error of that check instead.)
\<close>

theorem GetWriteLog_hop_cap:
  assumes "\<not> pathWithinCap d (Version endRoot) (typedHashFromRoot endRoot)
              (typedHashFromRoot startRoot)"
  shows "(\<forall>found. GetWriteLog d startRoot endRoot \<noteq> Inr found)
    \<and> (Follows endRoot startRoot \<and> Namespace startRoot = namespace d
        \<longrightarrow> GetWriteLog d startRoot endRoot = Inl ErrWriteLogNotFound)"
proof -
  have "searchWriteLogs d (Version endRoot) (typedHashFromRoot startRoot)
          [\<lparr>depth = 0, endRootHash = typedHashFromRoot endRoot, logKeys = [], logRoots = []\<rparr>]
        = None"
    by (rule searchWriteLogs_none [OF assms]) simp
  then show ?thesis
    by (simp add: GetWriteLog_def sanityCheckNamespace_def)
qed

text \<open>
  Evaluation on \<open>dbChain\<close>: from root 30 to root 34 the only path has four hops (three
  intermediate roots) and the result is write-log-not-found, as it is for the three-hop
  path from 30 to 33; the two-hop path from the empty I/O root to root 36 is found.
\<close>

theorem GetWriteLog_hop_cap_witness:
  "\<not> pathWithinCap dbChain (Version (rootS 3 34)) (typedHashFromRoot (rootS 3 34))
        (typedHashFromRoot (rootS 3 30))
   \<and> GetWriteLog dbChain (rootS 3 30) (rootS 3 34) = Inl ErrWriteLogNotFound
   \<and> GetWriteLog dbChain (rootS 3 30) (rootS 3 33) = Inl ErrWriteLogNotFound
   \<and> (\<exists>found. GetWriteLog dbChain (rootIO 3 emptyHash) (rootIO 3 36) = Inr found
         \<and> logKeys found = [(3, (RootTypeIO, 36), (RootTypeIO, 35)),
                             (3, (RootTypeIO, 35), (RootTypeIO, emptyHash))])"
proof -
  have np: "\<not> pathWithinCap dbChain (Version (rootS 3 34)) (typedHashFromRoot (rootS 3 34))
        (typedHashFromRoot (rootS 3 30))"
    "\<not> pathWithinCap dbChain (Version (rootS 3 33)) (typedHashFromRoot (rootS 3 33))
        (typedHashFromRoot (rootS 3 30))"
    by (auto simp: pathWithinCap_def hop_def dbChain_def example_simps)
  have g: "Follows (rootS 3 34) (rootS 3 30)" "Follows (rootS 3 33) (rootS 3 30)"
    "Namespace (rootS 3 30) = namespace dbChain"
    by (simp_all add: dbChain_def dbOne_def example_simps)
  have f: "\<exists>found. GetWriteLog dbChain (rootIO 3 emptyHash) (rootIO 3 36) = Inr found
         \<and> logKeys found = [(3, (RootTypeIO, 36), (RootTypeIO, 35)),
                             (3, (RootTypeIO, 35), (RootTypeIO, emptyHash))]"
    by (simp add: GetWriteLog_def writeLogsInto_def maxAllowedHops_def dbChain_def dbOne_def
        example_simps)
  from GetWriteLog_hop_cap [OF np(1)] GetWriteLog_hop_cap [OF np(2)] np g f
  show ?thesis by simp
qed

text \<open>
  The claim as written fails when the end root does not follow the start root: no write
  log leads from the root of version 1 back to the state root 22 of version 2, and the
  result is root-must-follow-old, not write-log-not-found.
\<close>

theorem GetWriteLog_follows_counterexample:
  "\<not> pathWithinCap dbTwo (Version (rootS 1 11)) (typedHashFromRoot (rootS 1 11))
        (typedHashFromRoot (rootS 2 22))
   \<and> GetWriteLog dbTwo (rootS 2 22) (rootS 1 11) = Inl ErrRootMustFollowOld
   \<and> GetWriteLog dbTwo (rootS 2 22) (rootS 1 11) \<noteq> Inl ErrWriteLogNotFound"
  by (auto simp: pathWithinCap_def hop_def GetWriteLog_def dbTwo_def example_simps)

subsection \<open>The sync cursor\<close>

lemma heapPush_last:
  assumes "\<forall>y \<in> set q. \<not> f x < f y"
  shows "heapPush f x q = q @ [x]"
  using assms by (induction q) auto

lemma unat_round_bound: "unat (x::64 word) < 2 ^ 64"
  using unsigned_less [of x, where 'a = nat] by simp

lemma unat_succ:
  assumes "(x::64 word) \<noteq> NOT 0"
  shows "unat (x + 1) = unat x + 1"
proof -
  from assms have "x + 1 \<noteq> 0"
    using max_word_wrap [of x] by auto
  then have "1 + x \<noteq> 0"
    by (simp add: add.commute)
  from unatSuc [OF this] show ?thesis
    by (simp add: add.commute)
qed

lemma unat_succ_below:
  assumes "unat (x::64 word) < unat (y::64 word)"
  shows "unat (x + 1) = unat x + 1"
proof -
  from assms have "unat x + 1 < 2 ^ 64"
    using unat_round_bound [of y] by simp
  then show ?thesis
    by (simp add: unat_word_ariths)
qed

lemma round_in_range:
  assumes "(r::64 word) \<in> set (map of_nat [i ..< unat (b::64 word)])"
  shows "r < b"
proof -
  from assms obtain j where j: "r = of_nat j" "j < unat b" by auto
  then have "unat r = j"
    by (simp add: le_unat_uoi [of j b])
  with j show ?thesis by (simp add: word_less_nat_alt)
qed

lemma round_not_largest:
  assumes "(r::64 word) < b"
  shows "r \<noteq> NOT 0"
proof
  assume "r = NOT 0"
  with assms have "(- 1 :: 64 word) < b" by simp
  moreover have "b \<le> - 1" by simp
  ultimately show False by simp
qed

lemma applyDiff_inv:
  assumes inv: "loopInv s"
    and gate: "lastFullyAppliedRound s + 1 = diffRound (hd (outOfOrderDiffs s))"
    and ap: "applyDiff s = Some s'"
  shows "loopInv s'"
proof -
  let ?F = "cachedLastRound s + 1" and ?A = "lastFullyAppliedRound s + 1"
  let ?d = "hd (outOfOrderDiffs s)"
  from ap obtain syncing where sy: "syncingRounds s (diffRound ?d) = Some syncing"
    by (auto simp: applyDiff_def Let_def split: option.splits)
  let ?sy = "syncing\<lparr>outstanding := outstanding syncing AND NOT (fetchMask ?d)\<rparr>"
  show ?thesis
  proof (cases "outstanding ?sy = maskNone \<and> awaitingRetry ?sy = maskNone")
    case False
    with ap sy have "s' = s\<lparr>outOfOrderDiffs := tl (outOfOrderDiffs s),
                            syncingRounds := (syncingRounds s)(diffRound ?d \<mapsto> ?sy)\<rparr>"
      by (auto simp: applyDiff_def Let_def)
    with inv show ?thesis by (simp add: loopInv_def)
  next
    case True
    with ap sy obtain summary where su: "hashCache s (diffRound ?d) = Some summary"
      by (auto simp: applyDiff_def Let_def split: option.splits)
    from True ap sy su have s': "s' = s\<lparr>outOfOrderDiffs := tl (outOfOrderDiffs s),
          syncingRounds := (syncingRounds s)(diffRound ?d := None),
          hashCache := (hashCache s)(diffRound ?d - 1 := None),
          lastFullyAppliedRound := diffRound ?d,
          outOfOrderApplieds := heapPush Round summary (outOfOrderApplieds s)\<rparr>"
      by (auto simp: applyDiff_def Let_def)
    have ne: "?A \<noteq> lastFullyAppliedRound s" by simp
    from inv su gate ne have rs: "Round summary = ?A" and nl: "?A \<noteq> NOT 0"
      unfolding loopInv_def by metis+
    from inv have le: "unat ?F \<le> unat ?A"
      and lst: "map Round (finalizing s @ outOfOrderApplieds s) = map of_nat [unat ?F ..< unat ?A]"
      by (simp_all add: loopInv_def)
    have ua: "unat (?A + 1) = unat ?A + 1"
      using nl by (rule unat_succ)
    have "\<forall>y \<in> set (outOfOrderApplieds s). \<not> Round summary < Round y"
    proof
      fix y assume "y \<in> set (outOfOrderApplieds s)"
      then have "Round y \<in> set (map Round (finalizing s @ outOfOrderApplieds s))" by simp
      with lst have "Round y < ?A" by (simp only: round_in_range)
      with rs show "\<not> Round summary < Round y" by simp
    qed
    then have hp: "heapPush Round summary (outOfOrderApplieds s) = outOfOrderApplieds s @ [summary]"
      by (rule heapPush_last)
    have c2: "map Round (finalizing s' @ outOfOrderApplieds s')
          = map of_nat [unat (cachedLastRound s' + 1) ..< unat (lastFullyAppliedRound s' + 1)]"
      using lst le rs ua gate by (simp add: s' hp)
    have c4: "\<forall>k summary. hashCache s' k = Some summary \<and> k \<noteq> lastFullyAppliedRound s'
            \<longrightarrow> Round summary = k \<and> k \<noteq> NOT 0"
    proof (intro allI impI)
      fix k su' assume a: "hashCache s' k = Some su' \<and> k \<noteq> lastFullyAppliedRound s'"
      with s' gate [symmetric] have "hashCache s k = Some su'" "k \<noteq> lastFullyAppliedRound s"
        by (auto split: if_splits)
      with inv show "Round su' = k \<and> k \<noteq> NOT 0"
        unfolding loopInv_def by metis
    qed
    from inv have rest: "length (finalizing s) \<le> 1" "sorted_wrt cursorOrder (stored s)"
      "\<forall>w \<in> set (stored s). unat (Round (LastBlock w)) < unat ?F"
      "stateStore s = (if stored s = [] then None else Some (last (stored s)))"
      by (simp_all add: loopInv_def)
    have c1: "unat (cachedLastRound s' + 1) \<le> unat (lastFullyAppliedRound s' + 1)"
      using le ua gate by (simp add: s')
    from c1 c2 c4 rest show ?thesis
      unfolding loopInv_def by (simp add: s')
  qed
qed

lemma dispatchFinalize_inv:
  assumes inv: "loopInv s"
    and ne: "outOfOrderApplieds s \<noteq> []"
    and gate: "cachedLastRound s + 1 = Round (hd (outOfOrderApplieds s))"
  shows "loopInv (dispatchFinalize s)"
proof -
  let ?F = "cachedLastRound s + 1" and ?A = "lastFullyAppliedRound s + 1"
  from ne obtain a q where q: "outOfOrderApplieds s = a # q" by (cases "outOfOrderApplieds s") auto
  from inv have lst: "map Round (finalizing s @ outOfOrderApplieds s) = map of_nat [unat ?F ..< unat ?A]"
    and one: "length (finalizing s) \<le> 1"
    by (simp_all add: loopInv_def)
  have none: "finalizing s = []"
  proof (rule ccontr)
    assume "finalizing s \<noteq> []"
    with one obtain f where f: "finalizing s = [f]"
      by (cases "finalizing s") auto
    from lst f q have "Round f # Round a # map Round q = map of_nat [unat ?F ..< unat ?A]"
      by simp
    then have len: "2 \<le> length [unat ?F ..< unat ?A]"
      by (metis length_map length_Cons Suc_le_mono le0 numeral_2_eq_2)
    then have two: "[unat ?F ..< unat ?A] = unat ?F # Suc (unat ?F) # [Suc (Suc (unat ?F)) ..< unat ?A]"
      by (simp add: upt_conv_Cons)
    from lst f q two have "Round a = of_nat (Suc (unat ?F))" by simp
    with gate q have "?F = ?F + 1" by simp
    then show False by simp
  qed
  with q have "finalizing (dispatchFinalize s) @ outOfOrderApplieds (dispatchFinalize s)
      = finalizing s @ outOfOrderApplieds s"
    by (simp add: dispatchFinalize_def)
  with inv none show ?thesis
    by (simp add: loopInv_def dispatchFinalize_def)
qed

lemma handleFinalized_inv:
  assumes inv: "loopInv s"
  shows "loopInv (handleFinalized s k putOk)"
proof (cases "k < length (finalizing s)")
  case False
  with inv show ?thesis by (simp add: handleFinalized_def)
next
  case True
  let ?F = "cachedLastRound s + 1" and ?A = "lastFullyAppliedRound s + 1"
  from inv have lst: "map Round (finalizing s @ outOfOrderApplieds s) = map of_nat [unat ?F ..< unat ?A]"
    and one: "length (finalizing s) \<le> 1"
    and cache: "\<forall>k summary. hashCache s k = Some summary \<and> k \<noteq> lastFullyAppliedRound s
            \<longrightarrow> Round summary = k \<and> k \<noteq> NOT 0"
    and srt: "sorted_wrt cursorOrder (stored s)"
    and below: "\<forall>w \<in> set (stored s). unat (Round (LastBlock w)) < unat ?F"
    and held: "stateStore s = (if stored s = [] then None else Some (last (stored s)))"
    by (simp_all add: loopInv_def)
  from True one obtain f where f: "finalizing s = [f]" and k: "k = 0"
    by (cases "finalizing s") auto
  from lst f have cons: "Round f # map Round (outOfOrderApplieds s) = map of_nat [unat ?F ..< unat ?A]"
    by simp
  then have lt: "unat ?F < unat ?A"
    by (cases "unat ?F < unat ?A") auto
  then have upt: "[unat ?F ..< unat ?A] = unat ?F # [Suc (unat ?F) ..< unat ?A]"
    by (simp add: upt_conv_Cons)
  from cons upt have rf: "Round f = ?F" and tl: "map Round (outOfOrderApplieds s)
      = map of_nat [Suc (unat ?F) ..< unat ?A]"
    by simp_all
  have uf: "unat (?F + 1) = unat ?F + 1"
    using lt by (rule unat_succ_below)
  let ?s' = "handleFinalized s k putOk"
  from f k have same: "finalizing ?s' = []" "outOfOrderApplieds ?s' = outOfOrderApplieds s"
      "cachedLastRound ?s' = Round f" "lastFullyAppliedRound ?s' = lastFullyAppliedRound s"
      "hashCache ?s' = hashCache s"
    by (simp_all add: handleFinalized_def flushSyncedState_def Let_def)
  from f k have st: "stored ?s' = (if putOk then stored s @ [\<lparr>LastBlock = f\<rparr>] else stored s)"
      "stateStore ?s' = (if putOk then Some \<lparr>LastBlock = f\<rparr> else stateStore s)"
    by (simp_all add: handleFinalized_def flushSyncedState_def Let_def)
  have c1: "unat (cachedLastRound ?s' + 1) \<le> unat (lastFullyAppliedRound ?s' + 1)"
    using lt uf by (simp add: same rf)
  have c2: "map Round (finalizing ?s' @ outOfOrderApplieds ?s')
      = map of_nat [unat (cachedLastRound ?s' + 1) ..< unat (lastFullyAppliedRound ?s' + 1)]"
    using tl uf by (simp add: same rf)
  have c5: "sorted_wrt cursorOrder (stored ?s')"
    using srt below by (auto simp: st rf sorted_wrt_append cursorOrder_def word_le_nat_alt)
  have c6: "\<forall>w \<in> set (stored ?s'). unat (Round (LastBlock w)) < unat (cachedLastRound ?s' + 1)"
    using below uf by (auto simp: st same rf)
  have c7: "stateStore ?s' = (if stored ?s' = [] then None else Some (last (stored ?s')))"
    using held by (simp add: st)
  from c1 c2 c5 c6 c7 cache show ?thesis
    unfolding loopInv_def by (simp add: same)
qed

lemma handleDiff_inv:
  assumes inv: "loopInv s" and hd: "handleDiff s item = Some s'"
  shows "loopInv s'"
proof (cases "err item")
  case True
  with hd obtain sr where "s' = s\<lparr>syncingRounds := sr\<rparr>"
    by (auto simp: handleDiff_def split: option.splits)
  with inv show ?thesis by (simp add: loopInv_def)
next
  case False
  with hd have "s' = s\<lparr>outOfOrderDiffs := heapPush diffRound item (outOfOrderDiffs s)\<rparr>"
    by (simp add: handleDiff_def)
  with inv show ?thesis by (simp add: loopInv_def)
qed

lemma fetchSummaries_cache:
  assumes hist: "\<forall>i b. history i = Some b \<longrightarrow> hdrRound b = i"
    and rounds: "\<forall>i \<in> set rounds. i \<noteq> NOT 0"
    and cache: "\<forall>k summary. cache k = Some summary \<and> k \<noteq> l \<longrightarrow> Round summary = k \<and> k \<noteq> NOT 0"
    and fs: "fetchSummaries history rounds cache = Some cache'"
  shows "\<forall>k summary. cache' k = Some summary \<and> k \<noteq> l \<longrightarrow> Round summary = k \<and> k \<noteq> NOT 0"
  using rounds cache fs
proof (induction rounds arbitrary: cache)
  case Nil
  then show ?case by simp
next
  case (Cons i rounds)
  from Cons.prems(1) have rest: "\<forall>i \<in> set rounds. i \<noteq> NOT 0" and ni: "i \<noteq> NOT 0"
    by simp_all
  show ?case
  proof (cases "cache i")
    case (Some su)
    with Cons.prems(3) have "fetchSummaries history rounds cache = Some cache'" by simp
    from Cons.IH [OF rest Cons.prems(2) this] show ?thesis .
  next
    case None
    with Cons.prems(3) obtain oldBlock where ob: "history i = Some oldBlock"
      and rec: "fetchSummaries history rounds (cache(i \<mapsto> summaryFromBlock oldBlock)) = Some cache'"
      by (cases "history i") simp_all
    from ob hist have ri: "Round (summaryFromBlock oldBlock) = i"
      by (simp add: summaryFromBlock_def)
    have "\<forall>k summary. (cache(i \<mapsto> summaryFromBlock oldBlock)) k = Some summary \<and> k \<noteq> l
        \<longrightarrow> Round summary = k \<and> k \<noteq> NOT 0"
    proof (intro allI impI)
      fix k summary
      assume a: "(cache(i \<mapsto> summaryFromBlock oldBlock)) k = Some summary \<and> k \<noteq> l"
      show "Round summary = k \<and> k \<noteq> NOT 0"
      proof (cases "k = i")
        case True
        with a ri ni show ?thesis by simp
      next
        case False
        with a have "cache k = Some summary \<and> k \<noteq> l" by simp
        with Cons.prems(2) show ?thesis by blast
      qed
    qed
    from Cons.IH [OF rest this rec] show ?thesis .
  qed
qed

lemma roundsFrom_not_largest: "\<forall>i \<in> set (roundsFrom a b). i \<noteq> NOT 0"
proof
  fix i assume "i \<in> set (roundsFrom a b)"
  then have "i < b"
    unfolding roundsFrom_def by (rule round_in_range)
  then show "i \<noteq> NOT 0" by (rule round_not_largest)
qed

lemma handleBlock_inv:
  assumes hist: "\<forall>i b. history i = Some b \<longrightarrow> hdrRound b = i"
    and inv: "loopInv s"
    and hb: "handleBlock history s blk = Some s'"
  shows "loopInv s'"
proof -
  let ?l = "lastFullyAppliedRound s"
  let ?dummy = "\<lparr>sumNamespace = hdrNamespace blk, Round = ?l + 1,
                   IORoot = \<lparr>Namespace = 0, Version = ?l + 1,
                             Type = RootTypeInvalid, Hash = emptyHash\<rparr>,
                   StateRoot = \<lparr>Namespace = 0, Version = ?l + 1,
                                Type = RootTypeInvalid, Hash = emptyHash\<rparr>\<rparr>"
  let ?cache0 = "if hashCache s ?l = None \<and> ?l = undefinedRound s
                 then (hashCache s)(?l \<mapsto> ?dummy) else hashCache s"
  let ?start = "if ?l = undefinedRound s then ?l + 1 else ?l"
  from hb obtain cache1 where
    f1: "fetchSummaries history (roundsFrom ?start (hdrRound blk)) ?cache0 = Some cache1"
    by (auto simp: handleBlock_def Let_def split: option.splits)
  let ?cache2 = "if cache1 (hdrRound blk) = None
                 then cache1(hdrRound blk \<mapsto> summaryFromBlock blk) else cache1"
  from hb f1 have nl: "hdrRound blk \<noteq> NOT 0"
    by (auto simp: handleBlock_def Let_def split: option.splits if_splits)
  from hb f1 nl obtain sr pool where
    s': "s' = s\<lparr>hashCache := ?cache2, syncingRounds := sr, fetchPool := pool\<rparr>"
    by (auto simp: handleBlock_def Let_def split: option.splits if_splits)
  from inv have cache: "\<forall>k summary. hashCache s k = Some summary \<and> k \<noteq> ?l
            \<longrightarrow> Round summary = k \<and> k \<noteq> NOT 0"
    by (simp add: loopInv_def)
  then have c0: "\<forall>k summary. ?cache0 k = Some summary \<and> k \<noteq> ?l
            \<longrightarrow> Round summary = k \<and> k \<noteq> NOT 0"
    by auto
  from fetchSummaries_cache [OF hist roundsFrom_not_largest c0 f1]
  have c1: "\<forall>k summary. cache1 k = Some summary \<and> k \<noteq> ?l
            \<longrightarrow> Round summary = k \<and> k \<noteq> NOT 0" .
  with nl have c2: "\<forall>k summary. ?cache2 k = Some summary \<and> k \<noteq> ?l
            \<longrightarrow> Round summary = k \<and> k \<noteq> NOT 0"
    by (auto simp: summaryFromBlock_def)
  from inv c2 show ?thesis
    unfolding loopInv_def by (simp add: s')
qed

lemma startWorker_inv:
  assumes pers: "\<forall>w. persisted = Some w \<longrightarrow> Round (LastBlock w) \<noteq> defaultUndefinedRound"
    and rest: "\<forall>(d, checkpoint) \<in> set restores. syncCheckpoints d checkpoint \<noteq> None
        \<longrightarrow> Round checkpoint \<noteq> defaultUndefinedRound
            \<and> (\<forall>w. persisted = Some w \<longrightarrow> Round (LastBlock w) \<le> Round checkpoint)"
  shows "loopInv (startWorker persisted genesisRound restores putOk)"
proof -
  let ?loaded = "loadSyncedState persisted"
  let ?c = "if Round (LastBlock ?loaded) = defaultUndefinedRound
                \<or> Round (LastBlock ?loaded) < genesisRound
            then genesisRound - 1 else Round (LastBlock ?loaded)"
  let ?n = "\<lparr>undefinedRound = genesisRound - 1, cachedLastRound = ?c,
             lastFullyAppliedRound = ?c,
             outOfOrderDiffs = [], outOfOrderApplieds = [],
             syncingRounds = Map.empty, hashCache = Map.empty,
             finalizing = [], fetchPool = [],
             syncedState = ?loaded, stateStore = persisted,
             stored = (case persisted of None \<Rightarrow> [] | Some w \<Rightarrow> [w])\<rparr>"
  let ?synced = "case restores of
                      [] \<Rightarrow> None
                    | (d, checkpoint) # retry \<Rightarrow>
                        (case syncCheckpoints d checkpoint of
                           Some summary \<Rightarrow> Some summary
                         | None \<Rightarrow>
                             (case retry of
                                [] \<Rightarrow> None
                              | (d', checkpoint') # _ \<Rightarrow> syncCheckpoints d' checkpoint'))"
  have sw: "startWorker persisted genesisRound restores putOk =
      (case ?synced of
         None \<Rightarrow> ?n
       | Some summary \<Rightarrow>
           (if putOk
            then ?n\<lparr>syncedState := \<lparr>LastBlock = summary\<rparr>,
                    stateStore := Some \<lparr>LastBlock = summary\<rparr>,
                    stored := stored ?n @ [\<lparr>LastBlock = summary\<rparr>]\<rparr>
            else ?n\<lparr>syncedState := \<lparr>LastBlock = summary\<rparr>\<rparr>)
           \<lparr>cachedLastRound := Round summary, lastFullyAppliedRound := Round summary\<rparr>)"
    by (simp add: startWorker_def flushSyncedState_def Let_def split: option.splits)
  show ?thesis
  proof (cases ?synced)
    case None
    have below: "\<forall>w \<in> set (stored ?n). unat (Round (LastBlock w)) < unat (?c + 1)"
    proof (cases persisted)
      case None
      then show ?thesis by simp
    next
      case (Some w)
      with pers have nd: "Round (LastBlock w) \<noteq> defaultUndefinedRound" by simp
      show ?thesis
      proof (cases "Round (LastBlock w) < genesisRound")
        case True
        with Some show ?thesis
          by (simp add: loadSyncedState_def word_less_nat_alt)
      next
        case False
        with Some nd show ?thesis
          by (simp add: loadSyncedState_def defaultUndefinedRound_def unat_succ)
      qed
    qed
    have "sorted_wrt cursorOrder (stored ?n)"
      by (cases persisted) simp_all
    moreover have "stateStore ?n = (if stored ?n = [] then None else Some (last (stored ?n)))"
      by (cases persisted) simp_all
    ultimately have "loopInv ?n"
      using below unfolding loopInv_def by simp
    with None sw show ?thesis by simp
  next
    case (Some summary)
    then obtain d checkpoint where mem: "(d, checkpoint) \<in> set restores"
      and sc: "syncCheckpoints d checkpoint = Some summary"
      by (auto split: list.splits option.splits prod.splits)
    from sc have "checkpoint = summary"
      by (simp add: syncCheckpoints_def split: if_splits)
    with mem sc have mem: "(d, summary) \<in> set restores"
      and ok: "syncCheckpoints d summary \<noteq> None"
      by simp_all
    from rest mem ok have nd: "Round summary \<noteq> defaultUndefinedRound"
      and cons: "\<forall>w. persisted = Some w \<longrightarrow> Round (LastBlock w) \<le> Round summary"
      by auto
    have us: "unat (Round summary + 1) = unat (Round summary) + 1"
      using nd by (simp add: defaultUndefinedRound_def unat_succ)
    have older: "\<forall>w \<in> set (stored ?n). Round (LastBlock w) \<le> Round summary"
      using cons by (cases persisted) simp_all
    let ?s = "(if putOk
            then ?n\<lparr>syncedState := \<lparr>LastBlock = summary\<rparr>,
                    stateStore := Some \<lparr>LastBlock = summary\<rparr>,
                    stored := stored ?n @ [\<lparr>LastBlock = summary\<rparr>]\<rparr>
            else ?n\<lparr>syncedState := \<lparr>LastBlock = summary\<rparr>\<rparr>)
           \<lparr>cachedLastRound := Round summary, lastFullyAppliedRound := Round summary\<rparr>"
    have "sorted_wrt cursorOrder (stored ?n)"
      by (cases persisted) simp_all
    with older have c5: "sorted_wrt cursorOrder (stored ?s)"
      by (simp add: sorted_wrt_append cursorOrder_def)
    from older us have c6: "\<forall>w \<in> set (stored ?s). unat (Round (LastBlock w)) < unat (cachedLastRound ?s + 1)"
      by (auto simp: word_le_nat_alt)
    have c7: "stateStore ?s = (if stored ?s = [] then None else Some (last (stored ?s)))"
      by (cases persisted) simp_all
    from c5 c6 c7 have "loopInv ?s"
      unfolding loopInv_def by simp
    with Some sw show ?thesis by simp
  qed
qed

lemma mainLoop_inv:
  assumes hist: "\<forall>i b. history i = Some b \<longrightarrow> hdrRound b = i"
    and inv: "loopInv s"
  shows "loopInv (mainLoop history s events)"
  using assms
proof (induction history s events rule: mainLoop.induct)
  case (1 history s events)
  note hist = "1.prems"(1) and inv = "1.prems"(2)
  let ?g1 = "outOfOrderDiffs s \<noteq> []
         \<and> lastFullyAppliedRound s + 1 = diffRound (hd (outOfOrderDiffs s))"
  let ?g2 = "outOfOrderApplieds s \<noteq> []
              \<and> cachedLastRound s + 1 = Round (hd (outOfOrderApplieds s))"
  show ?case
  proof (cases ?g1)
    case True
    have eq0: "mainLoop history s events =
        (case applyDiff s of None \<Rightarrow> s | Some s' \<Rightarrow> mainLoop history s' events)"
      using True by (subst mainLoop.simps) simp
    show ?thesis
    proof (cases "applyDiff s")
      case None
      with inv show ?thesis by (simp add: eq0)
    next
      case (Some s')
      from applyDiff_inv [OF inv _ Some] True have "loopInv s'" by simp
      from "1.IH"(1) [OF True Some hist this] Some show ?thesis by (simp add: eq0)
    qed
  next
    case g1: False
    have eq1: "mainLoop history s events =
        (if ?g2 then mainLoop history (dispatchFinalize s) events
         else case events of
             [] \<Rightarrow> s
           | NewBlock blk # rest \<Rightarrow>
               (case handleBlock history s blk of
                  None \<Rightarrow> s
                | Some s' \<Rightarrow> mainLoop history s' rest)
           | FetchedDiff item # rest \<Rightarrow>
               (case handleDiff s item of
                  None \<Rightarrow> s
                | Some s' \<Rightarrow> mainLoop history s' rest)
           | FinalizeDone k putOk # rest \<Rightarrow> mainLoop history (handleFinalized s k putOk) rest
           | CtxDone # rest \<Rightarrow> s)"
      using g1 by (subst mainLoop.simps) (rule if_not_P)
    show ?thesis
    proof (cases ?g2)
      case True
      from dispatchFinalize_inv [OF inv] True have "loopInv (dispatchFinalize s)" by simp
      from "1.IH"(2) [OF g1 True hist this] True show ?thesis
        by (simp add: eq1)
    next
      case g2: False
      have eq2: "mainLoop history s events =
        (case events of
             [] \<Rightarrow> s
           | NewBlock blk # rest \<Rightarrow>
               (case handleBlock history s blk of
                  None \<Rightarrow> s
                | Some s' \<Rightarrow> mainLoop history s' rest)
           | FetchedDiff item # rest \<Rightarrow>
               (case handleDiff s item of
                  None \<Rightarrow> s
                | Some s' \<Rightarrow> mainLoop history s' rest)
           | FinalizeDone k putOk # rest \<Rightarrow> mainLoop history (handleFinalized s k putOk) rest
           | CtxDone # rest \<Rightarrow> s)"
        using g2 unfolding eq1 by (rule if_not_P)
      show ?thesis
      proof (cases events)
        case Nil
        with inv show ?thesis unfolding eq2 by simp
      next
        case (Cons ev rest)
        show ?thesis
        proof (cases ev)
          case (NewBlock blk)
          show ?thesis
          proof (cases "handleBlock history s blk")
            case None
            with Cons NewBlock inv show ?thesis unfolding eq2 by simp
          next
            case (Some s')
            from handleBlock_inv [OF hist inv Some] have "loopInv s'" .
            from "1.IH"(3) [OF g1 g2 Cons NewBlock Some hist this] Cons NewBlock Some
            show ?thesis unfolding eq2 by simp
          qed
        next
          case (FetchedDiff item)
          show ?thesis
          proof (cases "handleDiff s item")
            case None
            with Cons FetchedDiff inv show ?thesis unfolding eq2 by simp
          next
            case (Some s')
            from handleDiff_inv [OF inv Some] have "loopInv s'" .
            from "1.IH"(4) [OF g1 g2 Cons FetchedDiff Some hist this] Cons FetchedDiff Some
            show ?thesis unfolding eq2 by simp
          qed
        next
          case (FinalizeDone k putOk)
          from handleFinalized_inv [OF inv] have "loopInv (handleFinalized s k putOk)" .
          from "1.IH"(5) [OF g1 g2 Cons FinalizeDone hist this] Cons FinalizeDone
          show ?thesis unfolding eq2 by simp
        next
          case CtxDone
          with Cons inv show ?thesis unfolding eq2 by simp
        qed
      qed
    qed
  qed
qed

lemma mainLoop_stored:
  "\<exists>later. stored (mainLoop history s events) = stored s @ later"
proof (induction history s events rule: mainLoop.induct)
  case (1 history s events)
  let ?g1 = "outOfOrderDiffs s \<noteq> []
         \<and> lastFullyAppliedRound s + 1 = diffRound (hd (outOfOrderDiffs s))"
  let ?g2 = "outOfOrderApplieds s \<noteq> []
              \<and> cachedLastRound s + 1 = Round (hd (outOfOrderApplieds s))"
  have ap: "applyDiff s = Some s' \<Longrightarrow> stored s' = stored s" for s'
    by (auto simp: applyDiff_def Let_def split: option.splits if_splits)
  have hb: "handleBlock history s blk = Some s' \<Longrightarrow> stored s' = stored s" for blk s'
    by (auto simp: handleBlock_def Let_def split: option.splits if_splits)
  have hd: "handleDiff s item = Some s' \<Longrightarrow> stored s' = stored s" for item s'
    by (auto simp: handleDiff_def split: option.splits if_splits)
  have hf: "\<exists>later. stored (handleFinalized s k putOk) = stored s @ later" for k putOk
    by (simp add: handleFinalized_def flushSyncedState_def Let_def)
  show ?case
  proof (cases ?g1)
    case True
    have eq0: "mainLoop history s events =
        (case applyDiff s of None \<Rightarrow> s | Some s' \<Rightarrow> mainLoop history s' events)"
      using True by (subst mainLoop.simps) simp
    show ?thesis
    proof (cases "applyDiff s")
      case None
      then show ?thesis by (simp add: eq0)
    next
      case (Some s')
      from "1.IH"(1) [OF True Some] ap [OF Some] Some show ?thesis by (simp add: eq0)
    qed
  next
    case g1: False
    have eq1: "mainLoop history s events =
        (if ?g2 then mainLoop history (dispatchFinalize s) events
         else case events of
             [] \<Rightarrow> s
           | NewBlock blk # rest \<Rightarrow>
               (case handleBlock history s blk of
                  None \<Rightarrow> s
                | Some s' \<Rightarrow> mainLoop history s' rest)
           | FetchedDiff item # rest \<Rightarrow>
               (case handleDiff s item of
                  None \<Rightarrow> s
                | Some s' \<Rightarrow> mainLoop history s' rest)
           | FinalizeDone k putOk # rest \<Rightarrow> mainLoop history (handleFinalized s k putOk) rest
           | CtxDone # rest \<Rightarrow> s)"
      using g1 by (subst mainLoop.simps) (rule if_not_P)
    show ?thesis
    proof (cases ?g2)
      case True
      from "1.IH"(2) [OF g1 True] True show ?thesis
        by (simp add: eq1 dispatchFinalize_def)
    next
      case g2: False
      have eq2: "mainLoop history s events =
        (case events of
             [] \<Rightarrow> s
           | NewBlock blk # rest \<Rightarrow>
               (case handleBlock history s blk of
                  None \<Rightarrow> s
                | Some s' \<Rightarrow> mainLoop history s' rest)
           | FetchedDiff item # rest \<Rightarrow>
               (case handleDiff s item of
                  None \<Rightarrow> s
                | Some s' \<Rightarrow> mainLoop history s' rest)
           | FinalizeDone k putOk # rest \<Rightarrow> mainLoop history (handleFinalized s k putOk) rest
           | CtxDone # rest \<Rightarrow> s)"
        using g2 unfolding eq1 by (rule if_not_P)
      show ?thesis
      proof (cases events)
        case Nil
        then show ?thesis unfolding eq2 by simp
      next
        case (Cons ev rest)
        show ?thesis
        proof (cases ev)
          case (NewBlock blk)
          show ?thesis
          proof (cases "handleBlock history s blk")
            case None
            with Cons NewBlock show ?thesis unfolding eq2 by simp
          next
            case (Some s')
            from "1.IH"(3) [OF g1 g2 Cons NewBlock Some] hb [OF Some] Cons NewBlock Some
            show ?thesis unfolding eq2 by simp
          qed
        next
          case (FetchedDiff item)
          show ?thesis
          proof (cases "handleDiff s item")
            case None
            with Cons FetchedDiff show ?thesis unfolding eq2 by simp
          next
            case (Some s')
            from "1.IH"(4) [OF g1 g2 Cons FetchedDiff Some] hd [OF Some] Cons FetchedDiff Some
            show ?thesis unfolding eq2 by simp
          qed
        next
          case (FinalizeDone k putOk)
          from "1.IH"(5) [OF g1 g2 Cons FinalizeDone] hf [of k putOk] Cons FinalizeDone
          show ?thesis unfolding eq2 by auto
        next
          case CtxDone
          with Cons show ?thesis unfolding eq2 by simp
        qed
      qed
    qed
  qed
qed

lemma startWorker_stored:
  "\<exists>later. stored (startWorker persisted genesisRound restores putOk)
      = (case persisted of None \<Rightarrow> [] | Some w \<Rightarrow> [w]) @ later"
  by (simp add: startWorker_def flushSyncedState_def Let_def split: option.splits)

text \<open>
  A checkpoint restore closes with \<open>Finalize\<close>, which refuses a version at or below the
  last finalized one: a restore that succeeds is of a round above the last finalized
  version of the database it is restored on, whatever the cursor says.
\<close>

lemma syncCheckpoints_above_finalized:
  assumes "syncCheckpoints d checkpoint \<noteq> None"
    and "LastFinalizedVersion (meta d) = Some l"
  shows "l < Version (IORoot checkpoint)"
proof -
  from assms(1) have "fst (Finalize d [IORoot checkpoint, StateRoot checkpoint]) = None"
    by (simp add: syncCheckpoints_def split: if_splits)
  then have "\<not> alreadyFinalized d (Version (IORoot checkpoint))"
    by (auto simp: Finalize_Cons split: if_splits)
  with assms(2) show ?thesis
    by (simp add: alreadyFinalized_def)
qed

text \<open>
  Claim C5, as the code has it. The worker writes the summary of a checkpoint restored at
  start-up to the cursor without comparing it with the cursor it found. Provided a
  checkpoint restore that succeeds is of a round that is not below the round of the
  persisted cursor, every value that the state store of a runtime's storage worker holds
  during a run (the persisted cursor found at start-up first, then each cursor the worker
  writes to it) has a round that is less than or equal to the round of every later one,
  and the store holds the last of them. The run is any sequence of receives of the main
  loop after the start-up with at most two checkpoint restores. Assumed of what surrounds
  the worker: the block history answers a request for round \<open>i\<close> with a block of round
  \<open>i\<close>, and neither the persisted cursor nor a restored checkpoint is of the undefined
  round \<open>2^64 - 1\<close>.
\<close>

theorem sync_cursor_monotone:
  assumes "\<forall>i b. history i = Some b \<longrightarrow> hdrRound b = i"
    and "\<forall>w. persisted = Some w \<longrightarrow> Round (LastBlock w) \<noteq> defaultUndefinedRound"
    and "\<forall>(d, checkpoint) \<in> set restores. syncCheckpoints d checkpoint \<noteq> None
        \<longrightarrow> Round checkpoint \<noteq> defaultUndefinedRound
            \<and> (\<forall>w. persisted = Some w \<longrightarrow> Round (LastBlock w) \<le> Round checkpoint)"
  shows "sorted_wrt cursorOrder (stored (worker persisted genesisRound restores putOk history events))
    \<and> (\<exists>later. stored (worker persisted genesisRound restores putOk history events)
          = (case persisted of None \<Rightarrow> [] | Some w \<Rightarrow> [w]) @ later)
    \<and> stateStore (worker persisted genesisRound restores putOk history events)
        = (if stored (worker persisted genesisRound restores putOk history events) = [] then None
           else Some (last (stored (worker persisted genesisRound restores putOk history events))))"
proof -
  let ?s0 = "startWorker persisted genesisRound restores putOk"
  from assms(2,3) have "loopInv ?s0"
    by (rule startWorker_inv)
  with assms(1) have "loopInv (mainLoop history ?s0 events)"
    by (rule mainLoop_inv)
  moreover from mainLoop_stored [of history ?s0 events] startWorker_stored [of persisted genesisRound restores putOk]
  have "\<exists>later. stored (mainLoop history ?s0 events)
          = (case persisted of None \<Rightarrow> [] | Some w \<Rightarrow> [w]) @ later"
    by auto
  ultimately show ?thesis
    by (simp add: worker_def loopInv_def)
qed

lemmas worker_simps = worker_def startWorker_def loadSyncedState_def defaultUndefinedRound_def
  syncCheckpoints_def handleBlock_def handleDiff_def handleFinalized_def applyDiff_def
  dispatchFinalize_def flushSyncedState_def roundsFrom_def summaryFromBlock_def
  maskNone_def maskIO_def maskState_def maskAll_def mainLoop.simps
  exampleBlock_def exampleHistory_def exampleDiff_def exampleCursor_def exampleLateCursor_def
  exampleCheckpoint_def
  exampleEvents_def

theorem sync_cursor_monotone_witness:
  "map (\<lambda>w. Round (LastBlock w))
     (stored (worker (Some exampleCursor) 5 [(dbRestore, exampleCheckpoint)] True
                exampleHistory exampleEvents)) = [1, 5, 7]
   \<and> sorted_wrt cursorOrder
        (stored (worker (Some exampleCursor) 5 [(dbRestore, exampleCheckpoint)] True
                   exampleHistory exampleEvents))
   \<and> map_option (\<lambda>w. Round (LastBlock w))
        (stateStore (worker (Some exampleCursor) 5 [(dbRestore, exampleCheckpoint)] True
                       exampleHistory exampleEvents)) = Some 7"
proof -
  have h1: "\<forall>i b. exampleHistory i = Some b \<longrightarrow> hdrRound b = i"
    by (auto simp: exampleHistory_def exampleBlock_def)
  have h2: "\<forall>w. Some exampleCursor = Some w \<longrightarrow> Round (LastBlock w) \<noteq> defaultUndefinedRound"
    by (simp add: exampleCursor_def summaryFromBlock_def exampleBlock_def defaultUndefinedRound_def)
  have h3: "\<forall>(d, checkpoint) \<in> set [(dbRestore, exampleCheckpoint)].
        syncCheckpoints d checkpoint \<noteq> None
        \<longrightarrow> Round checkpoint \<noteq> defaultUndefinedRound
            \<and> (\<forall>w. Some exampleCursor = Some w \<longrightarrow> Round (LastBlock w) \<le> Round checkpoint)"
    by (simp add: exampleCheckpoint_def exampleCursor_def summaryFromBlock_def exampleBlock_def
        defaultUndefinedRound_def word_le_nat_alt)
  have run: "map (\<lambda>w. Round (LastBlock w))
     (stored (worker (Some exampleCursor) 5 [(dbRestore, exampleCheckpoint)] True
                exampleHistory exampleEvents)) = [1, 5, 7]"
    by (simp add: worker_simps Finalize_def finalizeVersion_def finalizeRoot_def
        cleanMultipartLocked_def dbRestore_def example_simps)
  have st: "map_option (\<lambda>w. Round (LastBlock w))
        (stateStore (worker (Some exampleCursor) 5 [(dbRestore, exampleCheckpoint)] True
                       exampleHistory exampleEvents)) = Some 7"
    by (simp add: worker_simps Finalize_def finalizeVersion_def finalizeRoot_def
        cleanMultipartLocked_def dbRestore_def example_simps)
  from sync_cursor_monotone [OF h1 h2 h3, of 5 True exampleEvents]
  have "sorted_wrt cursorOrder
        (stored (worker (Some exampleCursor) 5 [(dbRestore, exampleCheckpoint)] True
                   exampleHistory exampleEvents))"
    by (rule conjunct1)
  with run st show ?thesis
    by (intro conjI)
qed

text \<open>
  The claim as written fails at start-up: with the persisted cursor at round 6 and a
  checkpoint of round 5 restored on \<open>dbRestore\<close>, whose last finalized version is 1, the
  restore succeeds and the state store holds round 6 first and round 5 after it.
\<close>

theorem sync_cursor_backwards_counterexample:
  "stored (worker (Some exampleLateCursor) 5 [(dbRestore, exampleCheckpoint)] True
             exampleHistory [])
     = [exampleLateCursor, \<lparr>LastBlock = exampleCheckpoint\<rparr>]
   \<and> Round (LastBlock exampleLateCursor) = 6 \<and> Round exampleCheckpoint = 5
   \<and> \<not> sorted_wrt cursorOrder
          (stored (worker (Some exampleLateCursor) 5 [(dbRestore, exampleCheckpoint)] True
                     exampleHistory []))"
proof -
  have run: "stored (worker (Some exampleLateCursor) 5 [(dbRestore, exampleCheckpoint)] True
             exampleHistory [])
     = [exampleLateCursor, \<lparr>LastBlock = exampleCheckpoint\<rparr>]"
    by (simp add: worker_simps Finalize_def finalizeVersion_def finalizeRoot_def
        cleanMultipartLocked_def dbRestore_def example_simps)
  have rounds: "Round (LastBlock exampleLateCursor) = 6" "Round exampleCheckpoint = 5"
    by (simp_all add: exampleLateCursor_def exampleCheckpoint_def summaryFromBlock_def
        exampleBlock_def)
  from rounds have "\<not> cursorOrder exampleLateCursor \<lparr>LastBlock = exampleCheckpoint\<rparr>"
    by (simp add: cursorOrder_def word_le_nat_alt)
  with run rounds show ?thesis
    by simp
qed

end
